theory Spec2Isabelle
  imports Main "HOL-Library.Sublist"
begin

section \<open>Python strings\<close>

text \<open>
  Texts are modelled as \<^typ>\<open>string\<close>, that is lists of 8-bit characters: the model covers
  Python strings whose code points are below 256.  On that range \<^verbatim>\<open>str.isspace\<close> holds
  exactly for the code points listed in \<open>is_space\<close>, and \<^verbatim>\<open>str.lower\<close> adds 32 to the
  code points of \<open>is_upper\<close> (which sets bit 5) and leaves every other one alone.
\<close>

definition is_space :: "char \<Rightarrow> bool" where
  "is_space c = (of_char c \<in> {9, 10, 11, 12, 13, 28, 29, 30, 31, 32, 133, 160 :: nat})"

definition is_upper :: "char \<Rightarrow> bool" where
  "is_upper c = (let n = of_char c :: nat in
     (65 \<le> n \<and> n \<le> 90) \<or> (192 \<le> n \<and> n \<le> 214) \<or> (216 \<le> n \<and> n \<le> 222))"

fun lower_char :: "char \<Rightarrow> char" where
  "lower_char (Char b0 b1 b2 b3 b4 b5 b6 b7) =
     (if is_upper (Char b0 b1 b2 b3 b4 b5 b6 b7) then Char b0 b1 b2 b3 b4 True b6 b7
      else Char b0 b1 b2 b3 b4 b5 b6 b7)"

definition lower :: "string \<Rightarrow> string" where
  "lower s = map lower_char s"

text \<open>\<open>str_in sub s\<close> is Python's \<^verbatim>\<open>sub in s\<close>; \<open>prefix p s\<close> is \<^verbatim>\<open>s.startswith(p)\<close>.\<close>

fun str_in :: "string \<Rightarrow> string \<Rightarrow> bool" where
  "str_in sub [] = (sub = [])"
| "str_in sub (c # cs) = (prefix sub (c # cs) \<or> str_in sub cs)"

section \<open>Category resolution (utils/template\_utils.py)\<close>

text \<open>The body of the loop of \<^verbatim>\<open>determine_category\<close>: the five tests on one asset type,
  \<open>None\<close> when none of them returns.\<close>

definition category_of :: "string \<Rightarrow> string option" where
  "category_of asset_type = (let a = lower asset_type in
     if str_in ''host'' a then Some ''host''
     else if str_in ''web'' a then Some ''web''
     else if str_in ''mobile'' a then Some ''mobile''
     else if str_in ''api'' a then Some ''api''
     else if str_in ''sv2m'' a then Some ''sv2m''
     else None)"

fun category_loop :: "string list \<Rightarrow> string option" where
  "category_loop [] = None"
| "category_loop (t # ts) = (case category_of t of Some c \<Rightarrow> Some c | None \<Rightarrow> category_loop ts)"

text \<open>The argument is \<open>None\<close> for Python's \<^verbatim>\<open>None\<close> (the default).  An empty list is
  falsy, and the loop over it returns nothing either.\<close>

definition determine_category :: "string list option \<Rightarrow> string" where
  "determine_category asset_types = (case asset_types of
      None \<Rightarrow> ''web''
    | Some ts \<Rightarrow> if ts = [] then ''web''
        else (case category_loop ts of Some c \<Rightarrow> c | None \<Rightarrow> ''web''))"

text \<open>The resolver as the specification words it: the categories in checking order, a
  case-insensitive substring match, the first tag of the list that matches anything decides,
  and \<open>web\<close> when nothing matches.  The substring relation is \<open>sublist\<close> of the library:
  \<open>sublist c s\<close> holds when \<open>s = ps @ c @ ss\<close> for some \<open>ps\<close> and \<open>ss\<close>.\<close>

definition checking_order :: "string list" where
  "checking_order = [''host'', ''web'', ''mobile'', ''api'', ''sv2m'']"

definition tag_matches :: "string \<Rightarrow> string \<Rightarrow> bool" where
  "tag_matches tg c = sublist c (lower tg)"

definition resolve_spec :: "string list \<Rightarrow> string" where
  "resolve_spec tags = (case List.find (\<lambda>tg. list_ex (tag_matches tg) checking_order) tags of
      None \<Rightarrow> ''web''
    | Some tg \<Rightarrow> (case List.find (tag_matches tg) checking_order of Some c \<Rightarrow> c | None \<Rightarrow> ''web''))"


section \<open>Template codec (utils/template\_utils.py)\<close>

text \<open>\<^verbatim>\<open>str.strip()\<close>, \<^verbatim>\<open>str.split('\n')\<close> and \<^verbatim>\<open>'\n'.join(...)\<close>.\<close>

definition strip :: "string \<Rightarrow> string" where
  "strip s = rev (dropWhile is_space (rev (dropWhile is_space s)))"

fun split_nl :: "string \<Rightarrow> string list" where
  "split_nl [] = [[]]"
| "split_nl (c # cs) = (if c = CHR ''\<newline>'' then [] # split_nl cs
     else (case split_nl cs of l # ls \<Rightarrow> (c # l) # ls | [] \<Rightarrow> [[c]]))"

fun join_nl :: "string list \<Rightarrow> string" where
  "join_nl [] = []"
| "join_nl [l] = l"
| "join_nl (l # l' # ls) = l @ CHR ''\<newline>'' # join_nl (l' # ls)"

text \<open>A section is a string, except \<open>scripts\<close>, which is a list of strings.\<close>

datatype secval = Text string | Lines "string list"

text \<open>
  The pattern of \<^verbatim>\<open>parse_template\<close> is
  \<^verbatim>\<open>^\[(Introduction|Testing|Documentation|conclusion-fail|conclusion-pass|Scripts)\]\<close>
  compiled with \<^verbatim>\<open>re.MULTILINE\<close> and no other flag.  \<open>match_tag s\<close> tries the bracketed
  alternatives, in the order of the pattern, at the head of \<open>s\<close> and returns group 1.  The
  anchor \<^verbatim>\<open>^\<close> holds at the start of the text and after every newline: the scanners carry
  that as the flag \<open>bol\<close>.
\<close>

definition section_names :: "string list" where
  "section_names = [''Introduction'', ''Testing'', ''Documentation'',
     ''conclusion-fail'', ''conclusion-pass'', ''Scripts'']"

definition tag_text :: "string \<Rightarrow> string" where
  "tag_text n = ''['' @ n @ '']''"

definition match_tag :: "string \<Rightarrow> string option" where
  "match_tag s = List.find (\<lambda>n. prefix (tag_text n) s) section_names"

text \<open>\<open>text_to_tag bol s\<close> is the text of \<open>s\<close> before the next match, \<open>skip_to_tag bol s\<close>
  the rest of \<open>s\<close> from that match on (empty when there is none).\<close>

fun text_to_tag :: "bool \<Rightarrow> string \<Rightarrow> string" where
  "text_to_tag bol [] = []"
| "text_to_tag bol (c # cs) = (if bol \<and> match_tag (c # cs) \<noteq> None then []
     else c # text_to_tag (c = CHR ''\<newline>'') cs)"

fun skip_to_tag :: "bool \<Rightarrow> string \<Rightarrow> string" where
  "skip_to_tag bol [] = []"
| "skip_to_tag bol (c # cs) = (if bol \<and> match_tag (c # cs) \<noteq> None then c # cs
     else skip_to_tag (c = CHR ''\<newline>'') cs)"

lemma length_skip_to_tag: "length (skip_to_tag bol s) \<le> length s"
  by (induction s arbitrary: bol) (auto simp: le_SucI)

lemma match_tag_prefix: "match_tag s = Some n \<Longrightarrow> prefix (tag_text n) s"
  by (auto simp: match_tag_def find_Some_iff)

lemma match_tag_length: "match_tag s = Some n \<Longrightarrow> length (tag_text n) \<le> length s"
  by (drule match_tag_prefix) (rule prefix_length_le)

text \<open>
  The loop over \<^verbatim>\<open>pattern.finditer(template_str)\<close>: for a text that starts at a match, the
  matched name with the slice from the end of this match to the start of the next one (or to
  the end of the text), then the matches that follow.  A match ends with a bracket, so the
  position after it is not the start of a line.
\<close>

function matches_from :: "string \<Rightarrow> (string \<times> string) list" where
  "matches_from s = (case match_tag s of
      None \<Rightarrow> []
    | Some n \<Rightarrow> (let rest = drop (length (tag_text n)) s
        in (n, text_to_tag False rest) # matches_from (skip_to_tag False rest)))"
  by pat_completeness auto
termination
proof (relation "measure length")
  show "wf (measure length)" by simp
next
  fix s n rest
  assume m: "match_tag s = Some n" and r: "rest = drop (length (tag_text n)) s"
  have "length (skip_to_tag False rest) \<le> length rest"
    by (rule length_skip_to_tag)
  also have "length rest < length s"
    using match_tag_length [OF m] r by (simp add: tag_text_def)
  finally show "(skip_to_tag False rest, s) \<in> measure length" by simp
qed

definition finditer :: "string \<Rightarrow> (string \<times> string) list" where
  "finditer s = matches_from (skip_to_tag True s)"

definition section_value :: "string \<Rightarrow> string \<Rightarrow> secval" where
  "section_value section_name raw = (let content = strip raw in
     if section_name = ''scripts'' then Lines (if content \<noteq> [] then split_nl content else [])
     else Text content)"

fun store_sections :: "(string \<rightharpoonup> secval) \<Rightarrow> (string \<times> string) list \<Rightarrow> (string \<rightharpoonup> secval)" where
  "store_sections sections [] = sections"
| "store_sections sections ((n, raw) # ms) =
     store_sections (sections(lower n \<mapsto> section_value (lower n) raw)) ms"

definition parse_template :: "string \<Rightarrow> (string \<rightharpoonup> secval)" where
  "parse_template template_str = store_sections Map.empty (finditer template_str)"

section \<open>Writing a draft (utils/template\_loader.py)\<close>

text \<open>
  The serialisation at the end of \<^verbatim>\<open>save_draft\<close> and \<^verbatim>\<open>save_template\<close>: the five text
  sections in fixed order, each read with \<^verbatim>\<open>sections.get(key.lower(), "")\<close>, then the
  scripts when the list is not empty, and \<^verbatim>\<open>strip()\<close> on the whole.  The text keys hold
  strings and \<open>scripts\<close> holds a list in every map the two functions build; \<open>get_text\<close> and
  \<open>get_scripts\<close> read a value of the other shape as absent.
\<close>

definition get_text :: "(string \<rightharpoonup> secval) \<Rightarrow> string \<Rightarrow> string" where
  "get_text sections k = (case sections k of Some (Text c) \<Rightarrow> c | _ \<Rightarrow> [])"

definition get_scripts :: "(string \<rightharpoonup> secval) \<Rightarrow> string list" where
  "get_scripts sections = (case sections ''scripts'' of Some (Lines ls) \<Rightarrow> ls | _ \<Rightarrow> [])"

definition block :: "string \<Rightarrow> string \<Rightarrow> string" where
  "block key content = ''['' @ key @ '']'' @ ''\<newline>'' @ content @ ''\<newline>\<newline>''"

definition text_keys :: "string list" where
  "text_keys = [''Introduction'', ''Testing'', ''Documentation'', ''conclusion-pass'', ''conclusion-fail'']"

definition scripts_block :: "string list \<Rightarrow> string" where
  "scripts_block scripts = (if scripts \<noteq> [] then ''[Scripts]'' @ ''\<newline>'' @ join_nl scripts @ ''\<newline>'' else [])"

definition template_content :: "(string \<rightharpoonup> secval) \<Rightarrow> string" where
  "template_content sections =
     concat (map (\<lambda>key. block key (get_text sections (lower key))) text_keys)
     @ scripts_block (get_scripts sections)"

definition serialize :: "(string \<rightharpoonup> secval) \<Rightarrow> string" where
  "serialize sections = strip (template_content sections)"

text \<open>\<^verbatim>\<open>str.splitlines()\<close> on code points below 256: the line boundaries are LF, CR, CR LF,
  VT, FF, FS, GS, RS and NEL, and a final boundary opens no further line.\<close>

definition is_linebreak :: "char \<Rightarrow> bool" where
  "is_linebreak c = (of_char c \<in> {10, 11, 12, 13, 28, 29, 30, 133 :: nat})"

fun splitlines_from :: "string \<Rightarrow> string \<Rightarrow> string list" where
  "splitlines_from cur [] = (if cur = [] then [] else [rev cur])"
| "splitlines_from cur (c # cs) =
     (if c = CHR 0x0D then
        (case cs of
           [] \<Rightarrow> [rev cur]
         | d # ds \<Rightarrow> if d = CHR ''\<newline>'' then rev cur # splitlines_from [] ds
                     else rev cur # splitlines_from [] (d # ds))
      else if is_linebreak c then rev cur # splitlines_from [] cs
      else splitlines_from (c # cur) cs)"

definition splitlines :: "string \<Rightarrow> string list" where
  "splitlines s = splitlines_from [] s"

text \<open>The fields of \<^verbatim>\<open>draft_data\<close> that reach the file; \<open>None\<close> is an absent key.  The
  scripts arrive as a list or as one string.\<close>

datatype scripts_field = ScriptList "string list" | ScriptText string

record draft_data =
  d_introduction :: "string option"
  d_testing_methodology :: "string option"
  d_documentation :: "string option"
  d_conclusion_type :: "string option"
  d_conclusion :: "string option"
  d_scripts :: "scripts_field option"

definition or_default :: "'a option \<Rightarrow> 'a \<Rightarrow> 'a" where
  "or_default v dflt = (case v of Some x \<Rightarrow> x | None \<Rightarrow> dflt)"

definition draft_scripts :: "draft_data \<Rightarrow> string list" where
  "draft_scripts d = (case d_scripts d of
      None \<Rightarrow> []
    | Some (ScriptList ls) \<Rightarrow> ls
    | Some (ScriptText s) \<Rightarrow> filter (\<lambda>l. strip l \<noteq> []) (splitlines s))"

definition empty_sections :: "string \<rightharpoonup> secval" where
  "empty_sections = [''introduction'' \<mapsto> Text [], ''testing'' \<mapsto> Text [],
     ''documentation'' \<mapsto> Text [], ''conclusion-pass'' \<mapsto> Text [],
     ''conclusion-fail'' \<mapsto> Text [], ''scripts'' \<mapsto> Lines []]"

text \<open>
  \<^verbatim>\<open>save_draft\<close>, from reading the existing draft on: \<open>existing\<close> is the content of the draft
  file, \<open>None\<close> when there is none.  \<open>save_draft_sections\<close> is the dictionary after the five
  assignments, \<open>save_draft\<close> the text written to the file.  (The choice of the file name and
  the mapping file come before and do not touch the content.)
\<close>

definition save_draft_sections :: "string option \<Rightarrow> draft_data \<Rightarrow> (string \<rightharpoonup> secval)" where
  "save_draft_sections existing d =
    (let introduction = or_default (d_introduction d) ''No introduction provided.'';
         testing_methodology = or_default (d_testing_methodology d) ''No testing methodology provided.'';
         documentation = or_default (d_documentation d) ''No documentation provided.'';
         conclusion_type = or_default (d_conclusion_type d) ''pass'';
         conclusion = or_default (d_conclusion d) ''No conclusion available.'';
         scripts = draft_scripts d;
         sections = (case existing of Some existing_content \<Rightarrow> parse_template existing_content
                      | None \<Rightarrow> empty_sections);
         conclusion_key = ''conclusion-'' @ conclusion_type
     in sections(''introduction'' \<mapsto> Text introduction,
                 ''testing'' \<mapsto> Text testing_methodology,
                 ''documentation'' \<mapsto> Text documentation,
                 conclusion_key \<mapsto> Text conclusion,
                 ''scripts'' \<mapsto> Lines scripts))"

definition save_draft :: "string option \<Rightarrow> draft_data \<Rightarrow> string" where
  "save_draft existing d = serialize (save_draft_sections existing d)"

section \<open>Mission cache (utils/api.py)\<close>

text \<open>
  The process-wide variables \<^verbatim>\<open>_cached_missions\<close>, \<^verbatim>\<open>_has_loaded_initial\<close> and
  \<^verbatim>\<open>_last_fetch_time\<close> form the state; a mission object is a value of the type \<open>'t\<close>.
  The file \<^verbatim>\<open>tasks.json\<close> is its parsed content (\<open>None\<close> when the file is missing or does
  not parse) with its modification time.  Times are clock readings in \<^typ>\<open>nat\<close>; writing
  the file is taken to succeed.
\<close>

record 't cache_state =
  cached_missions :: "'t list option"
  has_loaded_initial :: bool
  last_fetch_time :: nat

record 't disk =
  tasks_json :: "'t list option"
  tasks_mtime :: nat

record status =
  success :: bool
  source :: string
  error :: "string option"

definition load_cached_tasks :: "'t disk \<Rightarrow> 't list" where
  "load_cached_tasks dk = (case tasks_json dk of Some tasks \<Rightarrow> tasks | None \<Rightarrow> [])"

text \<open>\<^verbatim>\<open>read_auth_token\<close>: the stripped content of the token file, \<open>None\<close> when it cannot be
  read.\<close>

definition read_auth_token :: "string option \<Rightarrow> string option" where
  "read_auth_token token_file = map_option strip token_file"

text \<open>One page request: a response with its status code and, for status 200, the list in
  its body, or a \<^verbatim>\<open>requests.exceptions.RequestException\<close> with its text.\<close>

datatype 't response = Response nat "'t list" | RequestException string

text \<open>How the \<^verbatim>\<open>while True\<close> loop is left: by \<^verbatim>\<open>break\<close> with the tasks so far, by the
  \<^verbatim>\<open>raise Exception("API call failed please check authentication")\<close> of the 401 branch, or
  by a request exception.\<close>

datatype 't loop_exit = Break "'t list" | Raise_Auth | Raise_Request string

definition per_page :: nat where
  "per_page = 20"

partial_function (option) fetch_loop :: "(nat \<Rightarrow> 't response) \<Rightarrow> nat \<Rightarrow> 't list \<Rightarrow> 't loop_exit option" where
  "fetch_loop api page tasks = (case api page of
      RequestException e \<Rightarrow> Some (Raise_Request e)
    | Response status_code new_tasks \<Rightarrow>
        if status_code = 200 then
          (if length new_tasks < per_page then Some (Break (tasks @ new_tasks))
           else fetch_loop api (page + 1) (tasks @ new_tasks))
        else if status_code = 401 then Some Raise_Auth
        else Some (Break tasks))"

definition cache_fallback :: "string \<Rightarrow> status" where
  "cache_fallback msg = \<lparr>success = False, source = ''cache_fallback'', error = Some msg\<rparr>"

text \<open>
  \<^verbatim>\<open>get_all_missions\<close>.  The result is the returned pair with the state and the file after
  the call, \<open>None\<close> when the page loop does not end.  The function has no branch that raises:
  the exception of the 401 branch is not a \<^verbatim>\<open>RequestException\<close>, so it passes the inner
  handler and is caught by the outer \<^verbatim>\<open>except Exception\<close>, which returns.
\<close>

definition get_all_missions ::
  "'t cache_state \<Rightarrow> 't disk \<Rightarrow> string option \<Rightarrow> (nat \<Rightarrow> 't response) \<Rightarrow> nat \<Rightarrow> bool
    \<Rightarrow> (('t list \<times> status) \<times> 't cache_state \<times> 't disk) option" where
  "get_all_missions st dk token_file api current_time force_refresh =
    (if \<not> has_loaded_initial st \<and> load_cached_tasks dk \<noteq> [] then
       Some ((load_cached_tasks dk, \<lparr>success = True, source = ''initial_cache'', error = None\<rparr>),
             st\<lparr>cached_missions := Some (load_cached_tasks dk),
                last_fetch_time := tasks_mtime dk,
                has_loaded_initial := True\<rparr>, dk)
     else if \<not> force_refresh \<and> cached_missions st \<noteq> None then
       Some ((the (cached_missions st), \<lparr>success = True, source = ''memory_cache'', error = None\<rparr>),
             st, dk)
     else (case read_auth_token token_file of
         None \<Rightarrow> Some ((load_cached_tasks dk, cache_fallback ''No auth token found''), st, dk)
       | Some token \<Rightarrow>
           if token = [] then Some ((load_cached_tasks dk, cache_fallback ''No auth token found''), st, dk)
           else (case fetch_loop api 1 [] of
               None \<Rightarrow> None
             | Some (Raise_Request e) \<Rightarrow>
                 Some ((load_cached_tasks dk,
                        cache_fallback (''Network error while fetching tasks: '' @ e)), st, dk)
             | Some Raise_Auth \<Rightarrow>
                 Some ((load_cached_tasks dk,
                        cache_fallback (''Error fetching tasks: '' @ ''API call failed please check authentication'')),
                       st, dk)
             | Some (Break tasks) \<Rightarrow>
                 if tasks = [] then
                   Some ((load_cached_tasks dk, cache_fallback ''No tasks fetched from API''), st, dk)
                 else
                   Some ((tasks, \<lparr>success = True, source = ''api'', error = None\<rparr>),
                         st\<lparr>cached_missions := Some tasks, last_fetch_time := current_time\<rparr>,
                         dk\<lparr>tasks_json := Some tasks, tasks_mtime := current_time\<rparr>))))"

text \<open>\<open>full_pages api k\<close>: every page before page \<open>k\<close> answers 200 with at least
  \<open>per_page\<close> tasks, so the loop goes on to page \<open>k\<close>.\<close>

definition full_page :: "'t response \<Rightarrow> bool" where
  "full_page r = (case r of Response status_code new_tasks \<Rightarrow> status_code = 200 \<and> per_page \<le> length new_tasks
                   | RequestException e \<Rightarrow> False)"

definition full_pages :: "(nat \<Rightarrow> 't response) \<Rightarrow> nat \<Rightarrow> bool" where
  "full_pages api k = list_all (\<lambda>p. full_page (api p)) [1..<k]"

section \<open>Attachments (routes/mission\_routes.py)\<close>

text \<open>
  The directory of one mission: \<open>files\<close> lists the regular files directly in
  \<^verbatim>\<open>attachments_dir\<close>, in the order \<^verbatim>\<open>os.listdir\<close> gives them; \<open>sidecars\<close> holds the JSON
  files of \<^verbatim>\<open>metadata_dir\<close> by file name.  A path is written as the name of the file in its
  directory.  Writing a file and removing an existing one are taken to succeed; opening or
  renaming a file that is not there raises, as in the source.
\<close>

record meta =
  m_id :: string
  m_original_filename :: string
  m_filename :: string
  m_title :: string
  m_description :: string
  m_content_type :: string
  m_size :: nat
  m_upload_time :: string
  m_uploaded_to_api :: bool
  m_synack_id :: "string option"
  m_upload_api_time :: "string option"

record att_dir =
  files :: "string list"
  sidecars :: "string \<rightharpoonup> meta"

text \<open>\<^verbatim>\<open>file.save\<close>, \<^verbatim>\<open>os.remove\<close> behind \<^verbatim>\<open>os.path.exists\<close>, and \<^verbatim>\<open>os.rename\<close>, which
  replaces an existing target.\<close>

definition save_file :: "string \<Rightarrow> att_dir \<Rightarrow> att_dir" where
  "save_file name d = (if name \<in> set (files d) then d else d\<lparr>files := files d @ [name]\<rparr>)"

definition remove_file :: "string \<Rightarrow> att_dir \<Rightarrow> att_dir" where
  "remove_file name d = d\<lparr>files := removeAll name (files d)\<rparr>"

definition rename_file :: "string \<Rightarrow> string \<Rightarrow> att_dir \<Rightarrow> att_dir" where
  "rename_file old new d = (if old = new then d
     else d\<lparr>files := map (\<lambda>f. if f = old then new else f) (removeAll new (files d))\<rparr>)"

definition rename_sidecar :: "string \<Rightarrow> string \<Rightarrow> att_dir \<Rightarrow> att_dir" where
  "rename_sidecar old new d = (if old = new then d
     else d\<lparr>sidecars := (sidecars d)(new := sidecars d old, old := None)\<rparr>)"

text \<open>\<^verbatim>\<open>os.path.splitext(filename)[0]\<close> for a name without directory separators: the name
  up to its last dot, provided something other than dots comes before that dot.\<close>

definition splitext_root :: "string \<Rightarrow> string" where
  "splitext_root p = (let stem = rev (drop 1 (dropWhile (\<lambda>c. c \<noteq> CHR ''.'') (rev p)))
     in if CHR ''.'' \<in> set p \<and> list_ex (\<lambda>c. c \<noteq> CHR ''.'') stem then stem else p)"

text \<open>An incoming file of the request, and the dictionary kept for it in
  \<^verbatim>\<open>uploaded_files\<close>; an optional field is a key that the dictionary may lack.\<close>

record upload =
  up_filename :: string
  up_content_type :: "string option"
  up_size :: nat

record local_item =
  li_id :: string
  li_filename :: string
  li_original_filename :: string
  li_title :: string
  li_size :: nat
  li_metadata_path :: "string option"
  li_file_path :: "string option"
  li_content_type :: "string option"

text \<open>The reply to the one multipart request: an exception, or a status code with the
  \<^verbatim>\<open>id\<close> of each item of the JSON body (\<open>None\<close> for an item without one).\<close>

datatype remote_reply = Post_Raises string | Post_Response nat "string option list"

text \<open>What the endpoints read from outside: the content of the token file, whether the
  mission has its three UIDs, the reply of the remote API, the clock, the identifiers that
  \<^verbatim>\<open>uuid.uuid4()\<close> hands out, and werkzeug's \<^verbatim>\<open>secure_filename\<close>.\<close>

record env =
  e_token :: "string option"
  e_uids :: bool
  e_remote :: remote_reply
  e_now :: string
  e_uuid4 :: "nat \<Rightarrow> string"
  e_secure_filename :: "string \<Rightarrow> string"

datatype upload_failure = No_Token | Missing_Uids | Caught string | Status_Not_OK nat | No_Results

text \<open>The loop of \<^verbatim>\<open>upload_multiple_attachments_to_api\<close> that opens the files: the
  exception it raises, if any (a \<^verbatim>\<open>KeyError\<close> names the missing key).\<close>

fun open_all :: "att_dir \<Rightarrow> local_item list \<Rightarrow> string option" where
  "open_all d [] = None"
| "open_all d (att # atts) = (case li_file_path att of
      None \<Rightarrow> Some ''file_path''
    | Some p \<Rightarrow> if p \<notin> set (files d) then Some p
        else if li_content_type att = None then Some ''content_type''
        else open_all d atts)"

definition upload_multiple_attachments_to_api ::
  "env \<Rightarrow> att_dir \<Rightarrow> local_item list \<Rightarrow> upload_failure + string option list" where
  "upload_multiple_attachments_to_api e d attachments =
    (if (case e_token e of None \<Rightarrow> True | Some content \<Rightarrow> strip content = []) then Inl No_Token
     else if \<not> e_uids e then Inl Missing_Uids
     else (case open_all d attachments of
         Some x \<Rightarrow> Inl (Caught x)
       | None \<Rightarrow> (case e_remote e of
             Post_Raises x \<Rightarrow> Inl (Caught x)
           | Post_Response status_code api_results \<Rightarrow>
               if status_code \<noteq> 200 \<and> status_code \<noteq> 201 then Inl (Status_Not_OK status_code)
               else if api_results = [] then Inl No_Results
               else Inr api_results)))"

text \<open>
  The loop that stores the files of the batch, the same in both endpoints but for the
  dictionary appended to \<^verbatim>\<open>uploaded_files\<close>: \<^verbatim>\<open>upload_attachments\<close> records
  \<^verbatim>\<open>metadata_path\<close>, \<^verbatim>\<open>file_path\<close> and \<^verbatim>\<open>content_type\<close> (lines 1511 to 1520),
  \<^verbatim>\<open>upload_single_attachment\<close> does not (lines 1668 to 1674).  \<open>with_paths\<close> tells the two
  apart; \<open>i\<close> counts the identifiers generated so far.
\<close>

fun save_uploads ::
  "bool \<Rightarrow> env \<Rightarrow> string \<Rightarrow> string \<Rightarrow> nat \<Rightarrow> att_dir \<Rightarrow> upload list \<Rightarrow> att_dir \<times> local_item list" where
  "save_uploads with_paths e title description i d [] = (d, [])"
| "save_uploads with_paths e title description i d (file # rest) =
    (if up_filename file = [] then save_uploads with_paths e title description i d rest
     else
       (let attachment_id = e_uuid4 e i;
            original_filename = e_secure_filename e (up_filename file);
            filename = attachment_id @ ''_'' @ original_filename;
            d1 = save_file filename d;
            metadata = \<lparr>m_id = attachment_id,
                        m_original_filename = original_filename,
                        m_filename = filename,
                        m_title = (if title \<noteq> [] then title else splitext_root original_filename),
                        m_description = description,
                        m_content_type = (case up_content_type file of
                            None \<Rightarrow> ''application/octet-stream''
                          | Some t \<Rightarrow> if t = [] then ''application/octet-stream'' else t),
                        m_size = up_size file,
                        m_upload_time = e_now e,
                        m_uploaded_to_api = False,
                        m_synack_id = None,
                        m_upload_api_time = None\<rparr>;
            metadata_path = filename @ ''.json'';
            d2 = d1\<lparr>sidecars := (sidecars d1)(metadata_path \<mapsto> metadata)\<rparr>;
            item = \<lparr>li_id = attachment_id,
                    li_filename = filename,
                    li_original_filename = original_filename,
                    li_title = m_title metadata,
                    li_size = m_size metadata,
                    li_metadata_path = (if with_paths then Some metadata_path else None),
                    li_file_path = (if with_paths then Some filename else None),
                    li_content_type = (if with_paths then Some (m_content_type metadata) else None)\<rparr>
        in (case save_uploads with_paths e title description (i + 1) d2 rest of
              (d', items) \<Rightarrow> (d', item # items))))"

text \<open>The rollback after a failed multi-upload.  A missing key raises inside
  \<^verbatim>\<open>try: ... except Exception: pass\<close>, so nothing is removed for that entry.\<close>

fun rollback :: "att_dir \<Rightarrow> local_item list \<Rightarrow> att_dir" where
  "rollback d [] = d"
| "rollback d (u # us) = rollback
    (case li_file_path u of
       None \<Rightarrow> d
     | Some file_path \<Rightarrow>
         (let d1 = remove_file file_path d
          in (case li_metadata_path u of
                None \<Rightarrow> d1
              | Some metadata_path \<Rightarrow> d1\<lparr>sidecars := (sidecars d1)(metadata_path := None)\<rparr>))) us"

text \<open>\<^verbatim>\<open>filename.split('_', 1)[1] if '_' in filename else filename\<close>.\<close>

definition after_underscore :: "string \<Rightarrow> string" where
  "after_underscore filename = (if CHR ''_'' \<in> set filename
     then drop 1 (dropWhile (\<lambda>c. c \<noteq> CHR ''_'') filename) else filename)"

text \<open>
  One turn of the loop over \<^verbatim>\<open>zip(api_results, uploaded_files)\<close>, for an item with a
  \<^verbatim>\<open>metadata_path\<close> and a non-empty remote id.  Everything here runs inside one \<^verbatim>\<open>try\<close> whose
  handler only logs: an unreadable sidecar, a missing \<^verbatim>\<open>file_path\<close> or a failing rename end
  the turn with what was written before.
\<close>

definition promote_item :: "string \<Rightarrow> att_dir \<Rightarrow> string \<Rightarrow> local_item \<Rightarrow> string \<Rightarrow> att_dir" where
  "promote_item now d synack_id item metadata_path =
    (case sidecars d metadata_path of
       None \<Rightarrow> d
     | Some meta0 \<Rightarrow>
         (let meta = meta0\<lparr>m_synack_id := Some synack_id, m_uploaded_to_api := True,
                           m_upload_api_time := Some now\<rparr>;
              d1 = d\<lparr>sidecars := (sidecars d)(metadata_path \<mapsto> meta)\<rparr>
          in if prefix (synack_id @ ''_'') (li_filename item) then d1
             else
               (let base_filename = after_underscore (li_filename item);
                    new_filename = synack_id @ ''_'' @ base_filename
                in (case li_file_path item of
                      None \<Rightarrow> d1
                    | Some file_path \<Rightarrow>
                        if file_path \<notin> set (files d1) then d1
                        else
                          (let d2 = rename_file file_path new_filename d1;
                               new_metadata_path = new_filename @ ''.json'';
                               d3 = rename_sidecar metadata_path new_metadata_path d2
                           in d3\<lparr>sidecars := (sidecars d3)
                                  (new_metadata_path \<mapsto> meta\<lparr>m_filename := new_filename\<rparr>)\<rparr>)))))"

text \<open>The whole loop; the flag is false when \<^verbatim>\<open>local_item['metadata_path']\<close>, read before
  the \<^verbatim>\<open>try\<close>, raised a \<^verbatim>\<open>KeyError\<close> that ends the request.\<close>

fun promote_all :: "string \<Rightarrow> att_dir \<Rightarrow> (string option \<times> local_item) list \<Rightarrow> att_dir \<times> bool" where
  "promote_all now d [] = (d, True)"
| "promote_all now d ((api_id, item) # rest) = (case api_id of
      None \<Rightarrow> promote_all now d rest
    | Some synack_id \<Rightarrow>
        if synack_id = [] then promote_all now d rest
        else (case li_metadata_path item of
            None \<Rightarrow> (d, False)
          | Some metadata_path \<Rightarrow> promote_all now (promote_item now d synack_id item metadata_path) rest))"

text \<open>
  The two endpoints, for a mission that exists, from the check of the uploaded files on:
  the HTTP status of the response and the directory afterwards.
\<close>

definition upload_endpoint ::
  "bool \<Rightarrow> env \<Rightarrow> string \<Rightarrow> string \<Rightarrow> att_dir \<Rightarrow> upload list \<Rightarrow> nat \<times> att_dir" where
  "upload_endpoint with_paths e title description d request_files =
    (if \<not> list_ex (\<lambda>file. up_filename file \<noteq> []) request_files then (400, d)
     else (case save_uploads with_paths e title description 0 d request_files of
       (d1, uploaded_files) \<Rightarrow>
         (case upload_multiple_attachments_to_api e d1 uploaded_files of
            Inl failure \<Rightarrow> (500, rollback d1 uploaded_files)
          | Inr api_results \<Rightarrow>
              (case promote_all (e_now e) d1 (zip api_results uploaded_files) of
                 (d2, finished) \<Rightarrow>
                   if finished \<and> length api_results \<le> length uploaded_files then (200, d2)
                   else (500, d2)))))"

definition upload_attachments :: "env \<Rightarrow> string \<Rightarrow> string \<Rightarrow> att_dir \<Rightarrow> upload list \<Rightarrow> nat \<times> att_dir" where
  "upload_attachments = upload_endpoint True"

definition upload_single_attachment :: "env \<Rightarrow> string \<Rightarrow> string \<Rightarrow> att_dir \<Rightarrow> upload list \<Rightarrow> nat \<times> att_dir" where
  "upload_single_attachment = upload_endpoint False"

text \<open>
  The tests that the lookups make on one file name.  \<^verbatim>\<open>upload_to_api\<close> (lines 1251 to
  1273) compares the sidecar's \<^verbatim>\<open>id\<close>; \<^verbatim>\<open>download_attachment\<close> and
  \<^verbatim>\<open>delete_synack_attachment\<close> compare its \<^verbatim>\<open>synack_id\<close>.
\<close>

definition name_match :: "string \<Rightarrow> string \<Rightarrow> bool" where
  "name_match attachment_id filename =
     (prefix (attachment_id @ ''_'') filename \<or> splitext_root filename = attachment_id)"

definition upload_match :: "att_dir \<Rightarrow> string \<Rightarrow> string \<Rightarrow> bool" where
  "upload_match d attachment_id filename =
     (name_match attachment_id filename
      \<or> (case sidecars d (filename @ ''.json'') of
            Some metadata \<Rightarrow> m_id metadata = attachment_id | None \<Rightarrow> False))"

definition download_match :: "att_dir \<Rightarrow> string \<Rightarrow> string \<Rightarrow> bool" where
  "download_match d attachment_id filename =
     (name_match attachment_id filename
      \<or> (case sidecars d (filename @ ''.json'') of
            Some metadata \<Rightarrow> m_synack_id metadata = Some attachment_id | None \<Rightarrow> False))"

text \<open>The search loops: the first file, in listing order, that is not a \<^verbatim>\<open>temp_\<close> file and
  passes the tests; the delete endpoint collects all of them.\<close>

fun find_for_upload :: "att_dir \<Rightarrow> string \<Rightarrow> string list \<Rightarrow> string option" where
  "find_for_upload d attachment_id [] = None"
| "find_for_upload d attachment_id (filename # rest) =
    (if prefix ''temp_'' filename then find_for_upload d attachment_id rest
     else if upload_match d attachment_id filename then Some filename
     else find_for_upload d attachment_id rest)"

fun find_for_download :: "att_dir \<Rightarrow> string \<Rightarrow> string list \<Rightarrow> string option" where
  "find_for_download d attachment_id [] = None"
| "find_for_download d attachment_id (filename # rest) =
    (if prefix ''temp_'' filename then find_for_download d attachment_id rest
     else if download_match d attachment_id filename then Some filename
     else find_for_download d attachment_id rest)"

definition find_for_delete :: "att_dir \<Rightarrow> string \<Rightarrow> string list" where
  "find_for_delete d attachment_id =
     filter (\<lambda>filename. \<not> prefix ''temp_'' filename \<and> download_match d attachment_id filename) (files d)"

text \<open>The search loop of the helper \<^verbatim>\<open>upload_attachment_to_api\<close> (lines 152 to 174): the
  name prefix, then the sidecar's \<^verbatim>\<open>id\<close>; it does not compare the name without extension.\<close>

definition helper_match :: "att_dir \<Rightarrow> string \<Rightarrow> string \<Rightarrow> bool" where
  "helper_match d attachment_id filename =
     (prefix (attachment_id @ ''_'') filename
      \<or> (case sidecars d (filename @ ''.json'') of
            Some metadata \<Rightarrow> m_id metadata = attachment_id | None \<Rightarrow> False))"

fun find_for_helper :: "att_dir \<Rightarrow> string \<Rightarrow> string list \<Rightarrow> string option" where
  "find_for_helper d attachment_id [] = None"
| "find_for_helper d attachment_id (filename # rest) =
    (if prefix ''temp_'' filename then find_for_helper d attachment_id rest
     else if helper_match d attachment_id filename then Some filename
     else find_for_helper d attachment_id rest)"

text \<open>
  \<^verbatim>\<open>get_attachment\<close> (lines 772 to 804), for a mission that exists and a name without
  directory separators: the file served, \<open>None\<close> for an error response.  A file of that name
  is served as it is; otherwise a name of at least 36 characters with a hyphen in it is taken
  for an id, and the first listed file with that prefix is served (\<^verbatim>\<open>temp_\<close> files are not
  skipped here).
\<close>

definition get_attachment :: "att_dir \<Rightarrow> string \<Rightarrow> string option" where
  "get_attachment d filename =
    (if filename = [] then None
     else if filename \<in> set (files d) then Some filename
     else if 36 \<le> length filename \<and> CHR ''-'' \<in> set filename then
       (case filter (\<lambda>f. prefix (filename @ ''_'') f) (files d) of
          [] \<Rightarrow> None
        | f # matching_files \<Rightarrow> Some f)
     else None)"

section \<open>Notions used in the results\<close>

text \<open>A trimmed text is one that \<open>strip\<close> leaves alone (lemma \<open>strip_eq_iff_trimmed\<close>).\<close>

definition trimmed :: "string \<Rightarrow> bool" where
  "trimmed s = (s = [] \<or> (\<not> is_space (hd s) \<and> \<not> is_space (last s)))"

text \<open>\<open>no_tag c\<close>: no line of \<open>c\<close> begins with a recognised tag.  \<open>at_tag s\<close>: the text \<open>s\<close> is
  empty or begins with one.\<close>

definition no_tag :: "string \<Rightarrow> bool" where
  "no_tag c = (skip_to_tag True c = [])"

definition at_tag :: "string \<Rightarrow> bool" where
  "at_tag s = (s = [] \<or> match_tag s \<noteq> None)"

text \<open>The non-empty entries of a list of lines, and the list without the empty lines at its
  two ends.\<close>

definition nonempty_lines :: "string list \<Rightarrow> string list" where
  "nonempty_lines ls = filter (\<lambda>l. l \<noteq> []) ls"

definition core_lines :: "string list \<Rightarrow> string list" where
  "core_lines ls = rev (dropWhile (\<lambda>l. l = []) (rev (dropWhile (\<lambda>l. l = []) ls)))"

section \<open>Category resolution: results\<close>

text \<open>\<open>str_in\<close> is the substring test: \<open>sub\<close> occurs somewhere in \<open>s\<close>.\<close>

lemma str_in_sublist: "str_in sub s = sublist sub s"
  by (induction s) (simp_all add: sublist_Cons_right)

lemma str_in_iff: "str_in sub s \<longleftrightarrow> (\<exists>ps ss. s = ps @ sub @ ss)"
  by (simp add: str_in_sublist sublist_def)

text \<open>\<open>lower_char\<close> adds 32 to the code of an upper-case letter and keeps every other
  character.\<close>

lemma lower_char_code:
  "of_char (lower_char c) = (if is_upper c then of_char c + 32 else (of_char c :: nat))"
proof (cases c)
  case (Char b0 b1 b2 b3 b4 b5 b6 b7)
  show ?thesis
    unfolding Char
    by (cases b0; cases b1; cases b2; cases b3; cases b4; cases b5; cases b6; cases b7)
       (simp_all add: is_upper_def)
qed

lemma category_of_find: "category_of t = List.find (tag_matches t) checking_order"
  by (simp add: category_of_def checking_order_def tag_matches_def Let_def str_in_sublist)

lemma category_of_None_iff: "category_of t = None \<longleftrightarrow> \<not> list_ex (tag_matches t) checking_order"
  by (simp add: category_of_def checking_order_def tag_matches_def Let_def str_in_sublist)

lemma category_loop_spec:
  "(case category_loop ts of Some c \<Rightarrow> c | None \<Rightarrow> ''web'') = resolve_spec ts"
proof (induction ts)
  case Nil
  show ?case by (simp add: resolve_spec_def)
next
  case (Cons t ts)
  show ?case
  proof (cases "category_of t")
    case None
    then have "\<not> list_ex (tag_matches t) checking_order"
      by (simp add: category_of_None_iff)
    with None Cons show ?thesis
      by (simp add: resolve_spec_def)
  next
    case (Some c)
    then have ex: "list_ex (tag_matches t) checking_order"
      using category_of_None_iff [of t] by simp
    from Some have "List.find (tag_matches t) checking_order = Some c"
      by (simp add: category_of_find)
    with Some ex show ?thesis
      by (simp add: resolve_spec_def)
  qed
qed

lemma category_of_range:
  "category_of t = Some c \<Longrightarrow> c \<in> {''host'', ''web'', ''mobile'', ''api'', ''sv2m''}"
  by (auto simp: category_of_def Let_def split: if_splits)

lemma category_loop_range:
  "category_loop ts = Some c \<Longrightarrow> c \<in> {''host'', ''web'', ''mobile'', ''api'', ''sv2m''}"
proof (induction ts)
  case Nil
  then show ?case by simp
next
  case (Cons t ts)
  then show ?case
    by (cases "category_of t") (auto dest: category_of_range)
qed

lemma determine_category_range:
  "determine_category a \<in> {''host'', ''web'', ''mobile'', ''api'', ''sv2m''}"
proof (cases a)
  case None
  then show ?thesis by (simp add: determine_category_def)
next
  case (Some ts)
  show ?thesis
  proof (cases "category_loop ts")
    case None
    with Some show ?thesis by (simp add: determine_category_def)
  next
    case (Some c)
    with \<open>a = Some ts\<close> category_loop_range [OF Some] show ?thesis
      by (simp add: determine_category_def)
  qed
qed

lemma determine_category_examples:
  "determine_category (Some [''Host Pentest'']) = ''host''"
  "determine_category (Some [''Web App'']) = ''web''"
  "determine_category (Some []) = ''web''"
  "determine_category (Some [''SV2M Target'']) = ''sv2m''"
  "determine_category (Some [''Linux Host'']) = ''host''"
  "determine_category (Some [''Public REST API'']) = ''api''"
  by (simp_all add: determine_category_def category_of_def lower_def is_upper_def)

text \<open>
  C9.  For every list of asset-type tags (or none), \<open>determine_category\<close> returns one of
  host, web, mobile, api, sv2m; an absent or empty list gives web; on a list it is the
  resolver of the specification: the first tag, in list order, whose lower-cased text
  contains one of the five names as a substring (anywhere in it, not only at its start)
  decides, with the first such name in the order host, web, mobile, api, sv2m, and web when
  no tag matches.  The four examples of the specification evaluate as stated, and so do two
  tags that hold the name after other words.
\<close>

theorem C9_determine_category:
  "determine_category a \<in> {''host'', ''web'', ''mobile'', ''api'', ''sv2m''}
   \<and> determine_category None = ''web''
   \<and> determine_category (Some []) = ''web''
   \<and> determine_category (Some ts) = resolve_spec ts
   \<and> determine_category (Some [''Host Pentest'']) = ''host''
   \<and> determine_category (Some [''Web App'']) = ''web''
   \<and> determine_category (Some [''SV2M Target'']) = ''sv2m''
   \<and> determine_category (Some [''Linux Host'']) = ''host''
   \<and> determine_category (Some [''Public REST API'']) = ''api''"
proof -
  have "determine_category (Some ts) = resolve_spec ts"
    using category_loop_spec [of ts]
    by (cases "ts = []") (simp_all add: determine_category_def resolve_spec_def)
  moreover have "determine_category None = ''web''"
    by (simp add: determine_category_def)
  ultimately show ?thesis
    using determine_category_range [of a] determine_category_examples by simp
qed

theorem C9_determine_category_witness:
  "determine_category (Some [''Cloud'', ''Native Mobile API'', ''Host'']) = ''mobile''
   \<and> resolve_spec [''Cloud'', ''Native Mobile API'', ''Host''] = ''mobile''"
proof -
  have "determine_category (Some [''Cloud'', ''Native Mobile API'', ''Host'']) = ''mobile''"
    by (simp add: determine_category_def category_of_def lower_def is_upper_def)
  then show ?thesis
    using C9_determine_category [of None "[''Cloud'', ''Native Mobile API'', ''Host'']"] by simp
qed

section \<open>Mission cache: results\<close>

lemma fetch_loop_request_exception:
  "api k = RequestException e \<Longrightarrow> fetch_loop api k acc = Some (Raise_Request e)"
  by (subst fetch_loop.simps) simp

lemma fetch_loop_401:
  "api k = Response 401 body \<Longrightarrow> fetch_loop api k acc = Some Raise_Auth"
  by (subst fetch_loop.simps) simp

lemma fetch_loop_full_page:
  assumes "full_page (api p)"
  shows "\<exists>acc'. fetch_loop api p acc = fetch_loop api (p + 1) acc'"
proof (cases "api p")
  case (Response status_code new_tasks)
  with assms have "status_code = 200" and "\<not> length new_tasks < per_page"
    by (simp_all add: full_page_def)
  with Response have "fetch_loop api p acc = fetch_loop api (p + 1) (acc @ new_tasks)"
    by (subst fetch_loop.simps) simp
  then show ?thesis ..
next
  case (RequestException e)
  with assms show ?thesis by (simp add: full_page_def)
qed

text \<open>After full pages the loop stands at page \<open>k\<close>, with some list of tasks.\<close>

lemma fetch_loop_reaches:
  assumes "p \<le> k" and "\<forall>q. p \<le> q \<and> q < k \<longrightarrow> full_page (api q)"
  shows "\<exists>acc'. fetch_loop api p acc = fetch_loop api k acc'"
  using assms
proof (induction k rule: dec_induct)
  case base
  show ?case by blast
next
  case (step n)
  then obtain acc1 where a1: "fetch_loop api p acc = fetch_loop api n acc1"
    by auto
  from step have "full_page (api n)" by simp
  from fetch_loop_full_page [of api n acc1, OF this]
  obtain acc2 where "fetch_loop api n acc1 = fetch_loop api (Suc n) acc2"
    by auto
  with a1 show ?case by auto
qed

lemma full_pages_iff: "full_pages api k \<longleftrightarrow> (\<forall>q. 1 \<le> q \<and> q < k \<longrightarrow> full_page (api q))"
  by (auto simp: full_pages_def list_all_iff)

lemma fetch_loop_from_first:
  assumes "full_pages api k" and "1 \<le> k"
  shows "\<exists>acc'. fetch_loop api 1 [] = fetch_loop api k acc'"
  using fetch_loop_reaches [OF assms(2), of api "[]"] assms(1)
  by (simp add: full_pages_iff)

lemma fetch_loop_network_failure:
  assumes "full_pages api k" and "1 \<le> k" and "api k = RequestException e"
  shows "fetch_loop api 1 [] = Some (Raise_Request e)"
  using fetch_loop_from_first [OF assms(1,2)] fetch_loop_request_exception [of api k e] assms(3)
  by auto

lemma fetch_loop_unauthorized:
  assumes "full_pages api k" and "1 \<le> k" and "api k = Response 401 body"
  shows "fetch_loop api 1 [] = Some Raise_Auth"
  using fetch_loop_from_first [OF assms(1,2)] fetch_loop_401 [of api k body] assms(3)
  by auto

lemma fetch_loop_no_tasks:
  assumes "api 1 = Response c ts" and "if c = 200 then ts = [] else c \<noteq> 401"
  shows "fetch_loop api 1 [] = Some (Break [])"
  using assms by (subst fetch_loop.simps) (simp add: per_page_def split: if_splits)

text \<open>The call gets as far as the page loop.\<close>

lemma get_all_missions_fetches:
  assumes "has_loaded_initial st \<or> load_cached_tasks dk = []"
    and "force_refresh \<or> cached_missions st = None"
    and "read_auth_token token_file = Some token" and "token \<noteq> []"
  shows "get_all_missions st dk token_file api current_time force_refresh =
    (case fetch_loop api 1 [] of
       None \<Rightarrow> None
     | Some (Raise_Request e) \<Rightarrow>
         Some ((load_cached_tasks dk, cache_fallback (''Network error while fetching tasks: '' @ e)), st, dk)
     | Some Raise_Auth \<Rightarrow>
         Some ((load_cached_tasks dk,
                cache_fallback ''Error fetching tasks: API call failed please check authentication''), st, dk)
     | Some (Break tasks) \<Rightarrow>
         if tasks = [] then
           Some ((load_cached_tasks dk, cache_fallback ''No tasks fetched from API''), st, dk)
         else
           Some ((tasks, \<lparr>success = True, source = ''api'', error = None\<rparr>),
                 st\<lparr>cached_missions := Some tasks, last_fetch_time := current_time\<rparr>,
                 dk\<lparr>tasks_json := Some tasks, tasks_mtime := current_time\<rparr>))"
  using assms by (auto simp: get_all_missions_def split: option.splits loop_exit.splits)

text \<open>
  C3 as stated fails: on a first call that finds \<^verbatim>\<open>tasks.json\<close> missing, with a token in
  place, the missions come from the remote API (source \<open>api\<close>), and the flag stays unset.
\<close>

theorem C3_initial_load_counterexample:
  "get_all_missions \<lparr>cached_missions = None, has_loaded_initial = False, last_fetch_time = 0\<rparr>
     \<lparr>tasks_json = None, tasks_mtime = 0\<rparr> (Some ''tok'') (\<lambda>page. Response 200 [7::nat]) 5 False
   = Some (([7], \<lparr>success = True, source = ''api'', error = None\<rparr>),
       \<lparr>cached_missions = Some [7], has_loaded_initial = False, last_fetch_time = 5\<rparr>,
       \<lparr>tasks_json = Some [7], tasks_mtime = 5\<rparr>)"
  by (simp add: get_all_missions_def load_cached_tasks_def read_auth_token_def strip_def
      is_space_def fetch_loop.simps per_page_def)

text \<open>
  C3, amended.  On a call made while the initial-load flag is unset: if \<^verbatim>\<open>tasks.json\<close>
  holds a non-empty list, then whatever the token file, the remote API and the
  \<^verbatim>\<open>force_refresh\<close> argument are, the call returns that list with success and source
  \<open>initial_cache\<close>, stores it as the in-memory cache, sets the flag and leaves the file alone.
  If the file is missing, unreadable or holds an empty list, the initial branch is passed
  over: the call is what the rest of the function makes of it (the in-memory cache without
  \<^verbatim>\<open>force_refresh\<close>, else the fallback without a token, else the page loop), it never
  reports \<open>initial_cache\<close>, and the flag is still unset afterwards.
\<close>

theorem C3_initial_load:
  assumes "\<not> has_loaded_initial st"
  shows "(load_cached_tasks dk \<noteq> [] \<longrightarrow>
           get_all_missions st dk token_file api current_time force_refresh =
             Some ((load_cached_tasks dk, \<lparr>success = True, source = ''initial_cache'', error = None\<rparr>),
                   st\<lparr>cached_missions := Some (load_cached_tasks dk),
                      last_fetch_time := tasks_mtime dk,
                      has_loaded_initial := True\<rparr>, dk))
       \<and> (load_cached_tasks dk = [] \<longrightarrow>
           get_all_missions st dk token_file api current_time force_refresh =
             (if \<not> force_refresh \<and> cached_missions st \<noteq> None then
                Some ((the (cached_missions st),
                       \<lparr>success = True, source = ''memory_cache'', error = None\<rparr>), st, dk)
              else if read_auth_token token_file = None \<or> read_auth_token token_file = Some [] then
                Some (([], \<lparr>success = False, source = ''cache_fallback'',
                            error = Some ''No auth token found''\<rparr>), st, dk)
              else (case fetch_loop api 1 [] of
                  None \<Rightarrow> None
                | Some (Raise_Request e) \<Rightarrow>
                    Some (([], \<lparr>success = False, source = ''cache_fallback'',
                                error = Some (''Network error while fetching tasks: '' @ e)\<rparr>), st, dk)
                | Some Raise_Auth \<Rightarrow>
                    Some (([], \<lparr>success = False, source = ''cache_fallback'',
                                error = Some ''Error fetching tasks: API call failed please check authentication''\<rparr>),
                          st, dk)
                | Some (Break tasks) \<Rightarrow>
                    if tasks = [] then
                      Some (([], \<lparr>success = False, source = ''cache_fallback'',
                                  error = Some ''No tasks fetched from API''\<rparr>), st, dk)
                    else
                      Some ((tasks, \<lparr>success = True, source = ''api'', error = None\<rparr>),
                            st\<lparr>cached_missions := Some tasks, last_fetch_time := current_time\<rparr>,
                            dk\<lparr>tasks_json := Some tasks, tasks_mtime := current_time\<rparr>)))
         \<and> (\<forall>r st' dk'.
               get_all_missions st dk token_file api current_time force_refresh = Some (r, st', dk')
               \<longrightarrow> \<not> has_loaded_initial st' \<and> source (snd r) \<noteq> ''initial_cache''))"
proof (intro conjI impI)
  assume "load_cached_tasks dk \<noteq> []"
  with assms show "get_all_missions st dk token_file api current_time force_refresh =
             Some ((load_cached_tasks dk, \<lparr>success = True, source = ''initial_cache'', error = None\<rparr>),
                   st\<lparr>cached_missions := Some (load_cached_tasks dk),
                      last_fetch_time := tasks_mtime dk,
                      has_loaded_initial := True\<rparr>, dk)"
    by (simp add: get_all_missions_def)
next
  assume e: "load_cached_tasks dk = []"
  then show eq: "get_all_missions st dk token_file api current_time force_refresh =
             (if \<not> force_refresh \<and> cached_missions st \<noteq> None then
                Some ((the (cached_missions st),
                       \<lparr>success = True, source = ''memory_cache'', error = None\<rparr>), st, dk)
              else if read_auth_token token_file = None \<or> read_auth_token token_file = Some [] then
                Some (([], \<lparr>success = False, source = ''cache_fallback'',
                            error = Some ''No auth token found''\<rparr>), st, dk)
              else (case fetch_loop api 1 [] of
                  None \<Rightarrow> None
                | Some (Raise_Request e) \<Rightarrow>
                    Some (([], \<lparr>success = False, source = ''cache_fallback'',
                                error = Some (''Network error while fetching tasks: '' @ e)\<rparr>), st, dk)
                | Some Raise_Auth \<Rightarrow>
                    Some (([], \<lparr>success = False, source = ''cache_fallback'',
                                error = Some ''Error fetching tasks: API call failed please check authentication''\<rparr>),
                          st, dk)
                | Some (Break tasks) \<Rightarrow>
                    if tasks = [] then
                      Some (([], \<lparr>success = False, source = ''cache_fallback'',
                                  error = Some ''No tasks fetched from API''\<rparr>), st, dk)
                    else
                      Some ((tasks, \<lparr>success = True, source = ''api'', error = None\<rparr>),
                            st\<lparr>cached_missions := Some tasks, last_fetch_time := current_time\<rparr>,
                            dk\<lparr>tasks_json := Some tasks, tasks_mtime := current_time\<rparr>)))"
    by (auto simp: get_all_missions_def cache_fallback_def
        split: option.splits loop_exit.splits)
  show "\<forall>r st' dk'.
               get_all_missions st dk token_file api current_time force_refresh = Some (r, st', dk')
               \<longrightarrow> \<not> has_loaded_initial st' \<and> source (snd r) \<noteq> ''initial_cache''"
    unfolding eq using assms
    by (auto split: option.splits loop_exit.splits if_splits)
qed

theorem C3_initial_load_witness:
  "get_all_missions \<lparr>cached_missions = None, has_loaded_initial = False, last_fetch_time = 0\<rparr>
     \<lparr>tasks_json = Some [3::nat, 4], tasks_mtime = 9\<rparr> (Some ''tok'') (\<lambda>page. Response 200 [7]) 5 True
   = Some (([3, 4], \<lparr>success = True, source = ''initial_cache'', error = None\<rparr>),
       \<lparr>cached_missions = Some [3, 4], has_loaded_initial = True, last_fetch_time = 9\<rparr>,
       \<lparr>tasks_json = Some [3, 4], tasks_mtime = 9\<rparr>)
   \<and> get_all_missions \<lparr>cached_missions = None, has_loaded_initial = False, last_fetch_time = 0\<rparr>
     \<lparr>tasks_json = Some ([]::nat list), tasks_mtime = 9\<rparr> (Some ''tok'') (\<lambda>page. Response 200 [7]) 5 False
   = Some (([7], \<lparr>success = True, source = ''api'', error = None\<rparr>),
       \<lparr>cached_missions = Some [7], has_loaded_initial = False, last_fetch_time = 5\<rparr>,
       \<lparr>tasks_json = Some [7], tasks_mtime = 5\<rparr>)"
proof -
  let ?st = "\<lparr>cached_missions = None, has_loaded_initial = False, last_fetch_time = 0\<rparr> :: nat cache_state"
  let ?api = "\<lambda>page::nat. Response 200 [7::nat]"
  have flag: "\<not> has_loaded_initial ?st"
    by simp
  have tok: "read_auth_token (Some ''tok'') = Some ''tok''"
    by (simp add: read_auth_token_def strip_def is_space_def)
  have loop: "fetch_loop ?api (Suc 0) [] = Some (Break [7])"
    by (subst fetch_loop.simps) (simp add: per_page_def)
  have one: "get_all_missions ?st \<lparr>tasks_json = Some [3::nat, 4], tasks_mtime = 9\<rparr> (Some ''tok'') ?api 5 True
   = Some (([3, 4], \<lparr>success = True, source = ''initial_cache'', error = None\<rparr>),
       \<lparr>cached_missions = Some [3, 4], has_loaded_initial = True, last_fetch_time = 9\<rparr>,
       \<lparr>tasks_json = Some [3, 4], tasks_mtime = 9\<rparr>)"
    using C3_initial_load [OF flag, of "\<lparr>tasks_json = Some [3::nat, 4], tasks_mtime = 9\<rparr>"
        "Some ''tok''" ?api 5 True]
    by (simp add: load_cached_tasks_def)
  have two: "get_all_missions ?st \<lparr>tasks_json = Some ([]::nat list), tasks_mtime = 9\<rparr> (Some ''tok'') ?api 5 False
   = Some (([7], \<lparr>success = True, source = ''api'', error = None\<rparr>),
       \<lparr>cached_missions = Some [7], has_loaded_initial = False, last_fetch_time = 5\<rparr>,
       \<lparr>tasks_json = Some [7], tasks_mtime = 5\<rparr>)"
    using C3_initial_load [OF flag, of "\<lparr>tasks_json = Some ([]::nat list), tasks_mtime = 9\<rparr>"
        "Some ''tok''" ?api 5 False]
    by (simp add: load_cached_tasks_def tok loop)
  from one two show ?thesis ..
qed

text \<open>
  C4 at a concrete forced refresh: the cache is warm, the token is in place and the first
  page answers 401.  The call does not raise: it returns the list of \<^verbatim>\<open>tasks.json\<close> with
  success false and source \<open>cache_fallback\<close>, the text of the authentication exception
  inside the error string.
\<close>

theorem C4_unauthorized_returns_fallback:
  "get_all_missions \<lparr>cached_missions = Some [1::nat], has_loaded_initial = True, last_fetch_time = 0\<rparr>
     \<lparr>tasks_json = Some [1], tasks_mtime = 0\<rparr> (Some ''tok'') (\<lambda>page. Response 401 []) 5 True
   = Some (([1], \<lparr>success = False, source = ''cache_fallback'',
                 error = Some ''Error fetching tasks: API call failed please check authentication''\<rparr>),
       \<lparr>cached_missions = Some [1], has_loaded_initial = True, last_fetch_time = 0\<rparr>,
       \<lparr>tasks_json = Some [1], tasks_mtime = 0\<rparr>)"
  by (simp add: get_all_missions_def load_cached_tasks_def read_auth_token_def strip_def
      is_space_def fetch_loop.simps cache_fallback_def)

text \<open>The same on every forced fetch: a 401 on any page, after full pages, ends the call
  with the fallback and drops the pages fetched so far.\<close>

lemma get_all_missions_unauthorized:
  assumes "has_loaded_initial st \<or> load_cached_tasks dk = []"
    and "read_auth_token token_file = Some token" and "token \<noteq> []"
    and "full_pages api k" and "1 \<le> k" and "api k = Response 401 body"
  shows "get_all_missions st dk token_file api current_time True =
    Some ((load_cached_tasks dk,
           cache_fallback ''Error fetching tasks: API call failed please check authentication''), st, dk)"
  using get_all_missions_fetches [OF assms(1) _ assms(2,3), of True api current_time]
    fetch_loop_unauthorized [of api k body] assms(4,5,6)
  by simp

text \<open>
  C5.  On a forced refresh that reaches the page loop (the initial load is done or
  \<^verbatim>\<open>tasks.json\<close> gives nothing, and the token is in place): a request exception on page
  \<open>k\<close>, after \<open>k - 1\<close> full pages, and a first page that leaves the task list empty (status
  200 with an empty list, or a status other than 200 and 401) both make the call return the
  list of \<^verbatim>\<open>tasks.json\<close> with success false, source \<open>cache_fallback\<close> and an error string;
  the state and the file are unchanged.
\<close>

theorem C5_fetch_fallback:
  assumes "has_loaded_initial st \<or> load_cached_tasks dk = []"
    and "read_auth_token token_file = Some token" and "token \<noteq> []"
    and "full_pages api k" and "1 \<le> k"
  shows "(api k = RequestException e \<longrightarrow>
            get_all_missions st dk token_file api current_time True =
              Some ((load_cached_tasks dk,
                     \<lparr>success = False, source = ''cache_fallback'',
                      error = Some (''Network error while fetching tasks: '' @ e)\<rparr>), st, dk))
       \<and> (api 1 = Response c ts \<and> (if c = 200 then ts = [] else c \<noteq> 401) \<longrightarrow>
            get_all_missions st dk token_file api current_time True =
              Some ((load_cached_tasks dk,
                     \<lparr>success = False, source = ''cache_fallback'',
                      error = Some ''No tasks fetched from API''\<rparr>), st, dk))"
proof (intro conjI impI)
  assume "api k = RequestException e"
  with fetch_loop_network_failure [of api k e] assms(4,5)
  have "fetch_loop api 1 [] = Some (Raise_Request e)" by simp
  then show "get_all_missions st dk token_file api current_time True =
      Some ((load_cached_tasks dk,
             \<lparr>success = False, source = ''cache_fallback'',
              error = Some (''Network error while fetching tasks: '' @ e)\<rparr>), st, dk)"
    using get_all_missions_fetches [OF assms(1) _ assms(2,3), of True api current_time]
    by (simp add: cache_fallback_def)
next
  assume "api 1 = Response c ts \<and> (if c = 200 then ts = [] else c \<noteq> 401)"
  then have "fetch_loop api 1 [] = Some (Break [])"
    using fetch_loop_no_tasks [of api c ts] by blast
  then show "get_all_missions st dk token_file api current_time True =
      Some ((load_cached_tasks dk,
             \<lparr>success = False, source = ''cache_fallback'',
              error = Some ''No tasks fetched from API''\<rparr>), st, dk)"
    using get_all_missions_fetches [OF assms(1) _ assms(2,3), of True api current_time]
    by (simp add: cache_fallback_def)
qed

theorem C5_fetch_fallback_witness:
  "get_all_missions \<lparr>cached_missions = Some [1::nat], has_loaded_initial = True, last_fetch_time = 0\<rparr>
     \<lparr>tasks_json = Some [1], tasks_mtime = 0\<rparr> (Some ''tok'')
     (\<lambda>page. if page = 1 then Response 200 (replicate 20 0) else RequestException ''refused'') 5 True
   = Some (([1], \<lparr>success = False, source = ''cache_fallback'',
                 error = Some ''Network error while fetching tasks: refused''\<rparr>),
       \<lparr>cached_missions = Some [1], has_loaded_initial = True, last_fetch_time = 0\<rparr>,
       \<lparr>tasks_json = Some [1], tasks_mtime = 0\<rparr>)
   \<and> get_all_missions \<lparr>cached_missions = Some [1::nat], has_loaded_initial = True, last_fetch_time = 0\<rparr>
     \<lparr>tasks_json = Some [1], tasks_mtime = 0\<rparr> (Some ''tok'')
     (\<lambda>page. Response 503 []) 5 True
   = Some (([1], \<lparr>success = False, source = ''cache_fallback'',
                 error = Some ''No tasks fetched from API''\<rparr>),
       \<lparr>cached_missions = Some [1], has_loaded_initial = True, last_fetch_time = 0\<rparr>,
       \<lparr>tasks_json = Some [1], tasks_mtime = 0\<rparr>)"
proof -
  let ?st = "\<lparr>cached_missions = Some [1::nat], has_loaded_initial = True, last_fetch_time = 0\<rparr>"
  let ?dk = "\<lparr>tasks_json = Some [1::nat], tasks_mtime = 0\<rparr>"
  let ?api1 = "\<lambda>page::nat. if page = 1 then Response 200 (replicate 20 0) else RequestException ''refused''"
  let ?api2 = "\<lambda>page::nat. Response 503 ([]::nat list)"
  have tok: "read_auth_token (Some ''tok'') = Some ''tok''"
    by (simp add: read_auth_token_def strip_def is_space_def)
  have init: "has_loaded_initial ?st \<or> load_cached_tasks ?dk = []"
    by simp
  have ne: "''tok'' \<noteq> []" by simp
  have len: "length (replicate 20 (0::nat)) = 20"
    by simp
  have full1: "full_pages ?api1 2"
    by (auto simp: full_pages_iff full_page_def per_page_def len)
  have full2: "full_pages ?api2 1"
    by (simp add: full_pages_def)
  have a: "?api1 2 = RequestException ''refused''" by simp
  have b: "?api2 1 = Response 503 [] \<and> (if (503::nat) = 200 then ([]::nat list) = [] else (503::nat) \<noteq> 401)"
    by simp
  from C5_fetch_fallback [where e = "''refused''" and c = 200 and ts = "[]" and current_time = 5,
      OF init tok ne full1] a
  have one: "get_all_missions ?st ?dk (Some ''tok'') ?api1 5 True
      = Some ((load_cached_tasks ?dk, \<lparr>success = False, source = ''cache_fallback'',
           error = Some (''Network error while fetching tasks: '' @ ''refused'')\<rparr>), ?st, ?dk)"
    by simp
  from C5_fetch_fallback [where e = "''refused''" and c = 503 and ts = "[]" and current_time = 5,
      OF init tok ne full2] b
  have two: "get_all_missions ?st ?dk (Some ''tok'') ?api2 5 True
      = Some ((load_cached_tasks ?dk, \<lparr>success = False, source = ''cache_fallback'',
           error = Some ''No tasks fetched from API''\<rparr>), ?st, ?dk)"
    by simp
  from one two show ?thesis
    by (simp add: load_cached_tasks_def)
qed

section \<open>Template codec: results\<close>

declare matches_from.simps [simp del]

lemma matches_from_None: "match_tag s = None \<Longrightarrow> matches_from s = []"
  by (subst matches_from.simps) simp

lemma matches_from_Some:
  "match_tag s = Some n \<Longrightarrow>
   matches_from s = (n, text_to_tag False (drop (length (tag_text n)) s))
                    # matches_from (skip_to_tag False (drop (length (tag_text n)) s))"
  by (subst matches_from.simps) (simp add: Let_def)

lemma match_tag_Nil: "match_tag [] = None"
  by (simp add: match_tag_def section_names_def tag_text_def)

lemma match_tag_in_names: "match_tag s = Some n \<Longrightarrow> n \<in> set section_names"
  by (auto simp: match_tag_def find_Some_iff)

lemma text_skip_partition: "text_to_tag bol s @ skip_to_tag bol s = s"
  by (induction s arbitrary: bol) auto

lemma text_to_tag_no_tag: "skip_to_tag bol s = [] \<Longrightarrow> text_to_tag bol s = s"
  using text_skip_partition [of bol s] by simp

subsection \<open>Whitespace\<close>

lemma last_dropWhile: "dropWhile P xs \<noteq> [] \<Longrightarrow> last (dropWhile P xs) = last xs"
  by (induction xs) (auto split: if_splits)

lemma hd_rev_dropWhile_rev:
  assumes "dropWhile P (rev xs) \<noteq> []"
  shows "hd (rev (dropWhile P (rev xs))) = hd xs"
proof -
  have "hd (rev (dropWhile P (rev xs))) = last (dropWhile P (rev xs))"
    using assms by (simp add: hd_rev)
  also have "\<dots> = last (rev xs)"
    using assms by (rule last_dropWhile)
  also have "\<dots> = hd xs"
    using assms by (cases xs) (simp_all add: last_rev)
  finally show ?thesis .
qed

lemma trimmed_strip: "trimmed (strip s)"
proof (cases "strip s = []")
  case True
  then show ?thesis by (simp add: trimmed_def)
next
  case False
  let ?a = "dropWhile is_space s"
  let ?r = "dropWhile is_space (rev ?a)"
  from False have r: "?r \<noteq> []"
    by (simp add: strip_def)
  have a: "?a \<noteq> []"
  proof
    assume "?a = []"
    with r show False by simp
  qed
  have "hd (strip s) = hd ?a"
    unfolding strip_def using r by (rule hd_rev_dropWhile_rev)
  moreover have "\<not> is_space (hd ?a)"
    using a by (rule hd_dropWhile)
  moreover have "last (strip s) = hd ?r"
    using r by (simp add: strip_def last_rev)
  moreover have "\<not> is_space (hd ?r)"
    using r by (rule hd_dropWhile)
  ultimately show ?thesis
    by (simp add: trimmed_def)
qed

lemma strip_trimmed: "trimmed s \<Longrightarrow> strip s = s"
proof (cases "s = []")
  case True
  then show ?thesis by (simp add: strip_def)
next
  case False
  assume "trimmed s"
  with False have h: "\<not> is_space (hd s)" and l: "\<not> is_space (last s)"
    by (simp_all add: trimmed_def)
  from h False have "dropWhile is_space s = s"
    by (cases s) simp_all
  moreover from l False have "dropWhile is_space (rev s) = rev s"
    by (cases "rev s") (simp_all add: hd_rev [symmetric])
  ultimately show ?thesis
    by (simp add: strip_def)
qed

lemma strip_eq_iff_trimmed: "strip s = s \<longleftrightarrow> trimmed s"
  using trimmed_strip [of s] strip_trimmed [of s] by auto

lemma strip_strip: "strip (strip s) = strip s"
  by (rule strip_trimmed) (rule trimmed_strip)

lemma strip_space_prefix: "\<forall>c\<in>set w. is_space c \<Longrightarrow> strip (w @ s) = strip s"
  by (simp add: strip_def dropWhile_append2)

lemma strip_space_suffix:
  assumes "\<forall>c\<in>set w. is_space c"
  shows "strip (s @ w) = strip s"
proof (cases "\<forall>c\<in>set s. is_space c")
  case True
  with assms have "dropWhile is_space (s @ w) = []" and "dropWhile is_space s = []"
    by auto
  then show ?thesis by (simp only: strip_def)
next
  case False
  then obtain x where "x \<in> set s" and "\<not> is_space x" by blast
  then have "dropWhile is_space (s @ w) = dropWhile is_space s @ w"
    by (rule dropWhile_append1)
  moreover have "dropWhile is_space (rev w @ rev (dropWhile is_space s))
      = dropWhile is_space (rev (dropWhile is_space s))"
    by (rule dropWhile_append2) (use assms in auto)
  ultimately show ?thesis
    by (simp add: strip_def)
qed

lemma is_space_newline: "is_space CHR ''\<newline>''"
  by (simp add: is_space_def)

subsection \<open>What a parsed section holds\<close>

lemma store_sections_lookup:
  "store_sections m ms k = Some v \<Longrightarrow>
   m k = Some v \<or> (\<exists>n raw. (n, raw) \<in> set ms \<and> lower n = k \<and> v = section_value k raw)"
proof (induction ms arbitrary: m)
  case Nil
  then show ?case by simp
next
  case (Cons a ms)
  obtain n raw where a: "a = (n, raw)" by (cases a)
  from Cons.prems a
  have "store_sections (m(lower n \<mapsto> section_value (lower n) raw)) ms k = Some v"
    by simp
  from Cons.IH [OF this] a show ?case
    by (auto split: if_splits)
qed

lemma parse_template_lookup:
  assumes "parse_template t k = Some v"
  shows "\<exists>n raw. (n, raw) \<in> set (finditer t) \<and> lower n = k \<and> v = section_value k raw"
  using store_sections_lookup [of Map.empty "finditer t" k v] assms
  by (simp add: parse_template_def)

lemma parse_template_values:
  assumes "parse_template t k = Some v"
  shows "\<exists>n raw content. (n, raw) \<in> set (finditer t) \<and> lower n = k \<and> content = strip raw
           \<and> strip content = content
           \<and> (k = ''scripts'' \<longrightarrow> v = Lines (if content = [] then [] else split_nl content))
           \<and> (k \<noteq> ''scripts'' \<longrightarrow> v = Text content)"
proof -
  from parse_template_lookup [OF assms]
  obtain n raw where "(n, raw) \<in> set (finditer t)" and "lower n = k" and "v = section_value k raw"
    by blast
  then show ?thesis
    by (intro exI [of _ n] exI [of _ raw] exI [of _ "strip raw"])
       (simp add: section_value_def strip_strip)
qed

text \<open>
  C8 at a concrete text, a Scripts section of three lines of which the second is blank:
  the blank line comes out as an empty entry of the list stored under \<open>scripts\<close>, where
  the claim promises the non-empty lines only.  \<^verbatim>\<open>parse_template\<close> splits with
  \<^verbatim>\<open>content.split('\n')\<close> and filters nothing (line 31).  The other conversions of a
  scripts text to a list do drop such lines (\<^verbatim>\<open>save_template\<close> and \<^verbatim>\<open>save_draft\<close>, lines
  209 to 210 and 309 to 310 of template\_loader.py, and line 412 of mission\_routes.py):
  on the same content \<^verbatim>\<open>save_draft\<close> keeps the two non-empty lines.
\<close>

theorem C8_scripts_keeps_blank_line:
  "parse_template (''[Scripts]'' @ ''\<newline>'' @ ''a'' @ ''\<newline>\<newline>'' @ ''b'') ''scripts''
     = Some (Lines [''a'', [], ''b''])
   \<and> draft_scripts \<lparr>d_introduction = None, d_testing_methodology = None, d_documentation = None,
        d_conclusion_type = None, d_conclusion = None,
        d_scripts = Some (ScriptText (''a'' @ ''\<newline>\<newline>'' @ ''b''))\<rparr> = [''a'', ''b'']"
  by (simp add: parse_template_def finditer_def match_tag_def section_names_def tag_text_def
      section_value_def strip_def is_space_def is_upper_def lower_def matches_from.simps
      draft_scripts_def splitlines_def is_linebreak_def)

subsection \<open>Which tags start a section\<close>

lemma section_names_cases:
  "n \<in> set section_names \<Longrightarrow>
   n = ''Introduction'' \<or> n = ''Testing'' \<or> n = ''Documentation''
   \<or> n = ''conclusion-fail'' \<or> n = ''conclusion-pass'' \<or> n = ''Scripts''"
  by (simp add: section_names_def)

lemma match_tag_tag_text:
  "n \<in> set section_names \<Longrightarrow> match_tag (tag_text n @ body) = Some n"
  by (drule section_names_cases, elim disjE)
     (simp_all add: match_tag_def section_names_def tag_text_def)

lemma lower_char_fixed:
  "lower_char c = Char b0 b1 b2 b3 b4 False b6 b7 \<Longrightarrow> c = Char b0 b1 b2 b3 b4 False b6 b7"
  by (cases c) (simp split: if_splits)

lemma lower_char_bracket: "lower_char c = CHR '']'' \<Longrightarrow> c = CHR '']''"
  using lower_char_fixed [of c True False True True True True False] by simp

lemma lower_char_newline: "lower_char c = CHR ''\<newline>'' \<Longrightarrow> c = CHR ''\<newline>''"
  using lower_char_fixed [of c False True False True False False False] by simp

lemma names_free_of:
  "n \<in> set section_names \<Longrightarrow> CHR '']'' \<notin> set (lower n) \<and> CHR ''\<newline>'' \<notin> set (lower n)"
  by (drule section_names_cases, elim disjE)
     (simp_all add: lower_def is_upper_def)

lemma other_case_free_of:
  assumes "n \<in> set section_names" and "lower n' = lower n"
  shows "CHR '']'' \<notin> set n'" and "CHR ''\<newline>'' \<notin> set n'"
proof -
  have "set (lower n') = lower_char ` set n'"
    by (simp add: lower_def)
  with names_free_of [OF assms(1)] assms(2)
  have a: "CHR '']'' \<notin> lower_char ` set n'" and b: "CHR ''\<newline>'' \<notin> lower_char ` set n'"
    by simp_all
  show "CHR '']'' \<notin> set n'"
  proof
    assume "CHR '']'' \<in> set n'"
    then have "lower_char CHR '']'' \<in> lower_char ` set n'" by (rule imageI)
    with a show False by (simp add: is_upper_def)
  qed
  show "CHR ''\<newline>'' \<notin> set n'"
  proof
    assume "CHR ''\<newline>'' \<in> set n'"
    then have "lower_char CHR ''\<newline>'' \<in> lower_char ` set n'" by (rule imageI)
    with b show False by (simp add: is_upper_def)
  qed
qed

lemma lower_section_names:
  "map lower section_names = [''introduction'', ''testing'', ''documentation'',
     ''conclusion-fail'', ''conclusion-pass'', ''scripts'']"
  by (simp add: section_names_def lower_def is_upper_def)

lemma lower_names_inj:
  assumes "a \<in> set section_names" and "b \<in> set section_names" and "lower a = lower b"
  shows "a = b"
proof -
  have "distinct (map lower section_names)"
    unfolding lower_section_names by simp
  then have "inj_on lower (set section_names)"
    by (simp add: distinct_map)
  with assms show ?thesis
    by (simp add: inj_on_def)
qed

lemma first_occurrence_split:
  "a @ x # r = b @ x # s \<Longrightarrow> x \<notin> set a \<Longrightarrow> x \<notin> set b \<Longrightarrow> a = b"
proof (induction a arbitrary: b)
  case Nil
  then show ?case by (cases b) auto
next
  case (Cons z a)
  then show ?case by (cases b) auto
qed

lemma match_tag_other_case:
  assumes "n \<in> set section_names" and "lower n' = lower n" and "n' \<noteq> n"
  shows "match_tag (tag_text n' @ body) = None"
proof (rule ccontr)
  assume "match_tag (tag_text n' @ body) \<noteq> None"
  then obtain m where m: "match_tag (tag_text n' @ body) = Some m" by auto
  then have mn: "m \<in> set section_names" by (rule match_tag_in_names)
  from match_tag_prefix [OF m] have "prefix (m @ '']'') (n' @ CHR '']'' # body)"
    by (simp add: tag_text_def)
  then obtain zs where "n' @ CHR '']'' # body = m @ CHR '']'' # zs"
    by (auto simp: prefix_def)
  moreover have "CHR '']'' \<notin> set n'"
    using other_case_free_of(1) [OF assms(1,2)] .
  moreover have "CHR '']'' \<notin> set m"
    using other_case_free_of(1) [OF mn refl] .
  ultimately have "n' = m"
    by (rule first_occurrence_split)
  with mn assms lower_names_inj [of m n] show False by simp
qed

lemma skip_to_tag_line: "CHR ''\<newline>'' \<notin> set x \<Longrightarrow> skip_to_tag False (x @ b) = skip_to_tag False b"
  by (induction x) auto

subsection \<open>Every tag at the start of a line is found\<close>

lemma name_no_newline: "n \<in> set section_names \<Longrightarrow> CHR ''\<newline>'' \<notin> set n"
  by (drule section_names_cases, elim disjE) simp_all

lemma tag_text_no_newline: "n \<in> set section_names \<Longrightarrow> CHR ''\<newline>'' \<notin> set (tag_text n)"
  using name_no_newline [of n] by (simp add: tag_text_def)

lemma tag_text_not_Nil: "tag_text n \<noteq> []"
  by (simp add: tag_text_def)

lemma drop_tag: "drop (length (tag_text n)) (tag_text n @ post) = post"
  by simp

text \<open>Where a scan stops, a tag begins, and the text passed over is empty or ends a line.\<close>

lemma scan_stop:
  "bol \<and> match_tag (c # cs) \<noteq> None \<Longrightarrow>
   skip_to_tag bol (c # cs) = c # cs \<and> text_to_tag bol (c # cs) = []"
  by simp

lemma scan_step:
  "\<not> (bol \<and> match_tag (c # cs) \<noteq> None) \<Longrightarrow>
   skip_to_tag bol (c # cs) = skip_to_tag (c = CHR ''\<newline>'') cs
   \<and> text_to_tag bol (c # cs) = c # text_to_tag (c = CHR ''\<newline>'') cs"
  by (cases bol) simp_all

lemma skip_to_tag_at:
  "skip_to_tag bol s \<noteq> [] \<Longrightarrow>
   match_tag (skip_to_tag bol s) \<noteq> None
   \<and> (if text_to_tag bol s = [] then bol else last (text_to_tag bol s) = CHR ''\<newline>'')"
proof (induction s arbitrary: bol)
  case Nil
  then show ?case by simp
next
  case (Cons c cs)
  let ?b = "c = CHR ''\<newline>''"
  show ?case
  proof (cases "bol \<and> match_tag (c # cs) \<noteq> None")
    case True
    from scan_stop [OF True] True show ?thesis
      by (simp only: if_True simp_thms)
  next
    case False
    note e = scan_step [OF False]
    from Cons.prems have "skip_to_tag ?b cs \<noteq> []"
      by (simp only: e simp_thms)
    from Cons.IH [OF this]
    have m: "match_tag (skip_to_tag ?b cs) \<noteq> None"
      and t: "if text_to_tag ?b cs = [] then ?b else last (text_to_tag ?b cs) = CHR ''\<newline>''"
      by (rule conjunct1, rule conjunct2)
    have l: "last (c # text_to_tag ?b cs) = CHR ''\<newline>''"
    proof (cases "text_to_tag ?b cs = []")
      case True
      with t have ?b by (simp only: if_True simp_thms)
      with True show ?thesis by (simp only: last.simps if_True simp_thms)
    next
      case False
      with t have "last (text_to_tag ?b cs) = CHR ''\<newline>''" by (simp only: if_False simp_thms)
      with False show ?thesis by (simp only: last.simps if_False simp_thms)
    qed
    have "c # text_to_tag ?b cs \<noteq> []"
      by (rule list.distinct(2))
    with m l show ?thesis
      by (simp only: e if_False simp_thms)
  qed
qed

text \<open>A scan does not pass over a tag that stands at the start of a line.\<close>

lemma skip_to_tag_finds:
  assumes "n \<in> set section_names"
    and "if pre = [] then bol else last pre = CHR ''\<newline>''"
  shows "\<exists>pre'. skip_to_tag bol (pre @ tag_text n @ post) = pre' @ tag_text n @ post
           \<and> (pre' = [] \<or> last pre' = CHR ''\<newline>'') \<and> length pre' \<le> length pre"
  using assms(2)
proof (induction pre arbitrary: bol)
  case Nil
  then have bol by simp
  moreover have "match_tag (tag_text n @ post) \<noteq> None"
    using match_tag_tag_text [OF assms(1), of post] by simp
  moreover obtain c cs where "tag_text n @ post = c # cs"
    by (cases "tag_text n @ post") (simp_all add: tag_text_def)
  ultimately have "skip_to_tag bol ([] @ tag_text n @ post) = [] @ tag_text n @ post"
    by simp
  then show ?case by blast
next
  case (Cons c pre)
  show ?case
  proof (cases "bol \<and> match_tag ((c # pre) @ tag_text n @ post) \<noteq> None")
    case True
    then have "skip_to_tag bol ((c # pre) @ tag_text n @ post) = (c # pre) @ tag_text n @ post"
      by simp
    moreover have "last (c # pre) = CHR ''\<newline>''"
      using Cons.prems by simp
    ultimately show ?thesis by blast
  next
    case False
    then have e: "skip_to_tag bol ((c # pre) @ tag_text n @ post)
        = skip_to_tag (c = CHR ''\<newline>'') (pre @ tag_text n @ post)"
      by auto
    have "if pre = [] then c = CHR ''\<newline>'' else last pre = CHR ''\<newline>''"
      using Cons.prems by auto
    from Cons.IH [OF this] obtain pre' where
      "skip_to_tag (c = CHR ''\<newline>'') (pre @ tag_text n @ post) = pre' @ tag_text n @ post"
      and "pre' = [] \<or> last pre' = CHR ''\<newline>''" and "length pre' \<le> length pre"
      by blast
    with e show ?thesis
      by (intro exI [of _ pre']) simp
  qed
qed

lemma prefix_tag_split:
  assumes "prefix a (pre @ x)" and "CHR ''\<newline>'' \<notin> set a"
    and "pre \<noteq> []" and "last pre = CHR ''\<newline>''"
  shows "\<exists>pre2. pre = a @ pre2 \<and> pre2 \<noteq> [] \<and> last pre2 = CHR ''\<newline>''"
proof -
  have nl: "CHR ''\<newline>'' \<in> set pre"
    using assms(3,4) last_in_set by metis
  from assms(1) have "prefix a pre \<or> (\<exists>us. a = pre @ us)"
    by (auto simp: prefix_append)
  then show ?thesis
  proof
    assume "prefix a pre"
    then obtain pre2 where p: "pre = a @ pre2"
      by (auto simp: prefix_def)
    have "pre2 \<noteq> []"
    proof
      assume "pre2 = []"
      with p nl assms(2) show False by simp
    qed
    moreover from this p assms(4) have "last pre2 = CHR ''\<newline>''"
      by simp
    ultimately show ?thesis
      using p by blast
  next
    assume "\<exists>us. a = pre @ us"
    with nl assms(2) show ?thesis by auto
  qed
qed

text \<open>
  The list of matches of a text in which a tag stands at the start of a line: the matches
  before it, the tag with the text up to the next match, then the matches of what follows.
\<close>

lemma matches_from_finds:
  assumes n: "n \<in> set section_names"
  shows "match_tag (pre @ tag_text n @ post) \<noteq> None \<Longrightarrow> pre = [] \<or> last pre = CHR ''\<newline>'' \<Longrightarrow>
    \<exists>ms. matches_from (pre @ tag_text n @ post)
            = ms @ (n, text_to_tag False post) # matches_from (skip_to_tag False post)"
proof (induction "length pre" arbitrary: pre rule: less_induct)
  case less
  show ?case
  proof (cases "pre = []")
    case True
    have "match_tag (tag_text n @ post) = Some n"
      using n by (rule match_tag_tag_text)
    from matches_from_Some [OF this] True
    have "matches_from (pre @ tag_text n @ post)
        = [] @ (n, text_to_tag False post) # matches_from (skip_to_tag False post)"
      by simp
    then show ?thesis ..
  next
    case False
    with less.prems have lp: "last pre = CHR ''\<newline>''"
      by simp
    let ?s = "pre @ tag_text n @ post"
    from less.prems obtain m where m: "match_tag ?s = Some m"
      by auto
    then have mn: "m \<in> set section_names"
      by (rule match_tag_in_names)
    from match_tag_prefix [OF m] have "prefix (tag_text m) (pre @ (tag_text n @ post))" .
    from prefix_tag_split [OF this tag_text_no_newline [OF mn] False lp]
    obtain pre2 where p2: "pre = tag_text m @ pre2" and ne2: "pre2 \<noteq> []"
      and l2: "last pre2 = CHR ''\<newline>''"
      by blast
    let ?rest = "pre2 @ tag_text n @ post"
    have rest: "drop (length (tag_text m)) ?s = ?rest"
      unfolding p2 by simp
    have "if pre2 = [] then False else last pre2 = CHR ''\<newline>''"
      using ne2 l2 by simp
    from skip_to_tag_finds [OF n this, of post]
    obtain pre' where sk: "skip_to_tag False ?rest = pre' @ tag_text n @ post"
      and l': "pre' = [] \<or> last pre' = CHR ''\<newline>''" and len: "length pre' \<le> length pre2"
      by blast
    have "skip_to_tag False ?rest \<noteq> []"
      unfolding sk by (simp add: tag_text_def)
    then have "match_tag (skip_to_tag False ?rest) \<noteq> None"
      using skip_to_tag_at by blast
    then have mt: "match_tag (pre' @ tag_text n @ post) \<noteq> None"
      unfolding sk .
    have "length pre' < length pre"
      using len unfolding p2 by (simp add: tag_text_def)
    from less.hyps [OF this mt l'] obtain ms where
      ms: "matches_from (pre' @ tag_text n @ post)
            = ms @ (n, text_to_tag False post) # matches_from (skip_to_tag False post)"
      by blast
    have "matches_from ?s = (m, text_to_tag False ?rest) # matches_from (skip_to_tag False ?rest)"
      using matches_from_Some [OF m] unfolding rest .
    then have "matches_from ?s = ((m, text_to_tag False ?rest) # ms)
        @ (n, text_to_tag False post) # matches_from (skip_to_tag False post)"
      unfolding sk ms by simp
    then show ?thesis ..
  qed
qed

lemma finditer_finds:
  assumes n: "n \<in> set section_names" and l: "pre = [] \<or> last pre = CHR ''\<newline>''"
  shows "\<exists>ms. finditer (pre @ tag_text n @ post)
            = ms @ (n, text_to_tag False post) # matches_from (skip_to_tag False post)"
proof -
  have "if pre = [] then True else last pre = CHR ''\<newline>''"
    using l by auto
  from skip_to_tag_finds [OF n this, of post]
  obtain pre' where sk: "skip_to_tag True (pre @ tag_text n @ post) = pre' @ tag_text n @ post"
    and l': "pre' = [] \<or> last pre' = CHR ''\<newline>''"
    by blast
  have "skip_to_tag True (pre @ tag_text n @ post) \<noteq> []"
    unfolding sk by (simp add: tag_text_def)
  then have "match_tag (skip_to_tag True (pre @ tag_text n @ post)) \<noteq> None"
    using skip_to_tag_at by blast
  then have "match_tag (pre' @ tag_text n @ post) \<noteq> None"
    unfolding sk .
  from matches_from_finds [OF n this l'] show ?thesis
    unfolding finditer_def sk .
qed

subsection \<open>Every match is a tag at the start of a line\<close>

lemma matches_from_sound:
  "(n, raw) \<in> set (matches_from s) \<Longrightarrow>
   \<exists>pre post. n \<in> set section_names \<and> s = pre @ tag_text n @ post
      \<and> (pre = [] \<or> last pre = CHR ''\<newline>'') \<and> raw = text_to_tag False post"
proof (induction s rule: matches_from.induct)
  case (1 s)
  show ?case
  proof (cases "match_tag s")
    case None
    with "1.prems" show ?thesis
      by (simp add: matches_from_None)
  next
    case (Some m)
    let ?rest = "drop (length (tag_text m)) s"
    have mn: "m \<in> set section_names"
      using Some by (rule match_tag_in_names)
    from match_tag_prefix [OF Some] have s: "s = tag_text m @ ?rest"
      by (auto simp: prefix_def)
    from "1.prems" matches_from_Some [OF Some]
    have "(n, raw) = (m, text_to_tag False ?rest)
        \<or> (n, raw) \<in> set (matches_from (skip_to_tag False ?rest))"
      by simp
    then show ?thesis
    proof
      assume "(n, raw) = (m, text_to_tag False ?rest)"
      then have "n \<in> set section_names \<and> s = [] @ tag_text n @ ?rest
          \<and> ([] = [] \<or> last [] = CHR ''\<newline>'') \<and> raw = text_to_tag False ?rest"
        using mn s by simp
      then show ?thesis by blast
    next
      assume a: "(n, raw) \<in> set (matches_from (skip_to_tag False ?rest))"
      from "1.IH" [OF Some refl a] obtain pre post where
        nn: "n \<in> set section_names" and sk: "skip_to_tag False ?rest = pre @ tag_text n @ post"
        and l: "pre = [] \<or> last pre = CHR ''\<newline>''" and raw: "raw = text_to_tag False post"
        by blast
      have ne: "skip_to_tag False ?rest \<noteq> []"
        unfolding sk by (simp add: tag_text_def)
      from skip_to_tag_at [OF ne]
      have t: "text_to_tag False ?rest \<noteq> [] \<and> last (text_to_tag False ?rest) = CHR ''\<newline>''"
        by (auto split: if_splits)
      let ?pre = "tag_text m @ text_to_tag False ?rest @ pre"
      have "?rest = text_to_tag False ?rest @ skip_to_tag False ?rest"
        by (simp add: text_skip_partition)
      with s sk have "s = ?pre @ tag_text n @ post"
        by (metis append.assoc)
      moreover have "last ?pre = CHR ''\<newline>''"
        using l t by (cases "pre = []") (simp_all add: last_append)
      ultimately show ?thesis
        using nn raw by blast
    qed
  qed
qed

lemma finditer_sound:
  assumes "(n, raw) \<in> set (finditer t)"
  shows "\<exists>pre post. n \<in> set section_names \<and> t = pre @ tag_text n @ post
      \<and> (pre = [] \<or> last pre = CHR ''\<newline>'') \<and> raw = text_to_tag False post"
proof -
  from assms have a: "(n, raw) \<in> set (matches_from (skip_to_tag True t))"
    by (simp add: finditer_def)
  from matches_from_sound [OF a] obtain pre post where
    nn: "n \<in> set section_names" and sk: "skip_to_tag True t = pre @ tag_text n @ post"
    and l: "pre = [] \<or> last pre = CHR ''\<newline>''" and raw: "raw = text_to_tag False post"
    by blast
  have ne: "skip_to_tag True t \<noteq> []"
    unfolding sk by (simp add: tag_text_def)
  from skip_to_tag_at [OF ne]
  have t: "text_to_tag True t = [] \<or> last (text_to_tag True t) = CHR ''\<newline>''"
    by (auto split: if_splits)
  let ?pre = "text_to_tag True t @ pre"
  have "t = text_to_tag True t @ skip_to_tag True t"
    by (simp add: text_skip_partition)
  with sk have "t = ?pre @ tag_text n @ post"
    by simp
  moreover have "?pre = [] \<or> last ?pre = CHR ''\<newline>''"
    using l t by (cases "pre = []") (auto simp: last_append)
  ultimately show ?thesis
    using nn raw by blast
qed

lemma finditer_iff:
  "(n, raw) \<in> set (finditer t) \<longleftrightarrow>
   (\<exists>pre post. n \<in> set section_names \<and> t = pre @ tag_text n @ post
      \<and> (pre = [] \<or> last pre = CHR ''\<newline>'') \<and> raw = text_to_tag False post)"
proof
  assume "(n, raw) \<in> set (finditer t)"
  then show "\<exists>pre post. n \<in> set section_names \<and> t = pre @ tag_text n @ post
      \<and> (pre = [] \<or> last pre = CHR ''\<newline>'') \<and> raw = text_to_tag False post"
    by (rule finditer_sound)
next
  assume "\<exists>pre post. n \<in> set section_names \<and> t = pre @ tag_text n @ post
      \<and> (pre = [] \<or> last pre = CHR ''\<newline>'') \<and> raw = text_to_tag False post"
  then obtain pre post where nn: "n \<in> set section_names" and t: "t = pre @ tag_text n @ post"
    and l: "pre = [] \<or> last pre = CHR ''\<newline>''" and raw: "raw = text_to_tag False post"
    by blast
  from finditer_finds [OF nn l, of post] obtain ms where
    "finditer t = ms @ (n, raw) # matches_from (skip_to_tag False post)"
    unfolding t raw by blast
  then show "(n, raw) \<in> set (finditer t)"
    by simp
qed

subsection \<open>The keys of the parsed map\<close>

lemma dom_store_sections: "dom (store_sections m ms) = dom m \<union> lower ` fst ` set ms"
proof (induction ms arbitrary: m)
  case Nil
  show ?case by simp
next
  case (Cons a ms)
  obtain n raw where a: "a = (n, raw)" by (cases a)
  have "dom (store_sections m (a # ms))
      = dom (m(lower n \<mapsto> section_value (lower n) raw)) \<union> lower ` fst ` set ms"
    unfolding a by (simp only: store_sections.simps Cons.IH)
  also have "\<dots> = dom m \<union> lower ` fst ` set (a # ms)"
    unfolding a by simp
  finally show ?case .
qed

lemma dom_parse_template: "dom (parse_template t) = lower ` fst ` set (finditer t)"
  by (simp add: parse_template_def dom_store_sections)

lemma store_sections_other: "k \<notin> lower ` fst ` set ms \<Longrightarrow> store_sections m ms k = m k"
  by (induction ms arbitrary: m) auto

lemma store_sections_append:
  "store_sections m (ms1 @ ms2) = store_sections (store_sections m ms1) ms2"
  by (induction ms1 arbitrary: m) auto

lemma store_sections_last:
  assumes "lower n \<notin> lower ` fst ` set ms2"
  shows "store_sections m (ms1 @ (n, raw) # ms2) (lower n) = Some (section_value (lower n) raw)"
  using assms by (simp add: store_sections_append store_sections_other)

text \<open>The section of a name is taken from its last tag at the start of a line.\<close>

lemma parse_template_section:
  assumes n: "n \<in> set section_names" and l: "pre = [] \<or> last pre = CHR ''\<newline>''"
    and later: "n \<notin> fst ` set (matches_from (skip_to_tag False post))"
  shows "parse_template (pre @ tag_text n @ post) (lower n)
           = Some (section_value (lower n) (text_to_tag False post))"
proof -
  from finditer_finds [OF n l, of post] obtain ms where
    f: "finditer (pre @ tag_text n @ post)
          = ms @ (n, text_to_tag False post) # matches_from (skip_to_tag False post)"
    by blast
  have "lower n \<notin> lower ` fst ` set (matches_from (skip_to_tag False post))"
  proof
    assume "lower n \<in> lower ` fst ` set (matches_from (skip_to_tag False post))"
    then obtain n2 raw2 where in2: "(n2, raw2) \<in> set (matches_from (skip_to_tag False post))"
      and eq: "lower n = lower n2"
      by auto
    from matches_from_sound [OF in2] have n2: "n2 \<in> set section_names"
      by blast
    have "n = n2"
      using n n2 eq by (rule lower_names_inj)
    with in2 have "(n, raw2) \<in> set (matches_from (skip_to_tag False post))"
      by simp
    then have "fst (n, raw2) \<in> fst ` set (matches_from (skip_to_tag False post))"
      by (rule imageI)
    with later show False
      by simp
  qed
  then show ?thesis
    unfolding parse_template_def f by (rule store_sections_last)
qed

subsection \<open>The case of a tag\<close>

text \<open>
  C7 as stated fails: a tag written in another case starts no section.
\<close>

theorem C7_case_counterexample:
  "parse_template (''[introduction]'' @ ''\<newline>'' @ ''hello'') = Map.empty
   \<and> parse_template (''[SCRIPTS]'' @ ''\<newline>'' @ ''run.sh'') = Map.empty
   \<and> parse_template (''[Introduction]'' @ ''\<newline>'' @ ''hello'') ''introduction'' = Some (Text ''hello'')"
  by (simp add: parse_template_def finditer_def match_tag_def section_names_def tag_text_def
      section_value_def strip_def is_space_def is_upper_def lower_def matches_from.simps)

lemma parse_template_dom_iff:
  "k \<in> dom (parse_template t) \<longleftrightarrow>
   (\<exists>n pre post. n \<in> set section_names \<and> k = lower n \<and> t = pre @ tag_text n @ post
      \<and> (pre = [] \<or> last pre = CHR ''\<newline>''))"
proof
  assume "k \<in> dom (parse_template t)"
  then obtain n raw where in_f: "(n, raw) \<in> set (finditer t)" and k: "k = lower n"
    unfolding dom_parse_template by auto
  from finditer_sound [OF in_f] k
  show "\<exists>n pre post. n \<in> set section_names \<and> k = lower n \<and> t = pre @ tag_text n @ post
      \<and> (pre = [] \<or> last pre = CHR ''\<newline>'')"
    by blast
next
  assume "\<exists>n pre post. n \<in> set section_names \<and> k = lower n \<and> t = pre @ tag_text n @ post
      \<and> (pre = [] \<or> last pre = CHR ''\<newline>'')"
  then obtain n pre post where n: "n \<in> set section_names" and k: "k = lower n"
    and t: "t = pre @ tag_text n @ post" and l: "pre = [] \<or> last pre = CHR ''\<newline>''"
    by blast
  from finditer_finds [OF n l, of post] obtain ms where
    "finditer t = ms @ (n, text_to_tag False post) # matches_from (skip_to_tag False post)"
    unfolding t by blast
  then have "(n, text_to_tag False post) \<in> set (finditer t)"
    by simp
  then have "lower (fst (n, text_to_tag False post)) \<in> lower ` fst ` set (finditer t)"
    by (intro imageI)
  then show "k \<in> dom (parse_template t)"
    unfolding dom_parse_template k by simp
qed

lemma parse_template_has_iff:
  assumes m: "m \<in> set section_names"
  shows "lower m \<in> dom (parse_template t) \<longleftrightarrow>
   (\<exists>pre post. t = pre @ tag_text m @ post \<and> (pre = [] \<or> last pre = CHR ''\<newline>''))"
proof
  assume "lower m \<in> dom (parse_template t)"
  then obtain n pre post where n: "n \<in> set section_names" and k: "lower m = lower n"
    and t: "t = pre @ tag_text n @ post" and l: "pre = [] \<or> last pre = CHR ''\<newline>''"
    unfolding parse_template_dom_iff by blast
  have "m = n"
    using m n k by (rule lower_names_inj)
  with t l show "\<exists>pre post. t = pre @ tag_text m @ post \<and> (pre = [] \<or> last pre = CHR ''\<newline>'')"
    by blast
next
  assume "\<exists>pre post. t = pre @ tag_text m @ post \<and> (pre = [] \<or> last pre = CHR ''\<newline>'')"
  with m show "lower m \<in> dom (parse_template t)"
    unfolding parse_template_dom_iff by blast
qed

lemma other_case_never_matched:
  assumes m: "m \<in> set section_names" and o: "lower m' = lower m" "m' \<noteq> m"
  shows "(m', raw) \<notin> set (finditer t)"
proof
  assume "(m', raw) \<in> set (finditer t)"
  from finditer_sound [OF this] have "m' \<in> set section_names"
    by blast
  then have "m' = m"
    using m o(1) by (rule lower_names_inj)
  with o(2) show False ..
qed

lemma parse_single_tag:
  assumes "n \<in> set section_names" and "skip_to_tag False body = []"
  shows "parse_template (tag_text n @ body) = [lower n \<mapsto> section_value (lower n) body]"
proof -
  have m: "match_tag (tag_text n @ body) = Some n"
    using assms(1) by (rule match_tag_tag_text)
  then have "skip_to_tag True (tag_text n @ body) = tag_text n @ body"
    by (simp add: tag_text_def)
  then have "finditer (tag_text n @ body) = [(n, body)]"
    using m assms(2)
    by (simp add: finditer_def matches_from_Some matches_from_None match_tag_Nil text_to_tag_no_tag)
  then show ?thesis
    by (simp add: parse_template_def)
qed

lemma parse_other_case:
  assumes "n \<in> set section_names" and "skip_to_tag False body = []"
    and a: "lower n' = lower n" "n' \<noteq> n"
  shows "parse_template (tag_text n' @ body) = Map.empty"
proof -
  have "match_tag (tag_text n' @ body) = None"
    using assms(1) a by (rule match_tag_other_case)
  then have "skip_to_tag True (tag_text n' @ body) = skip_to_tag False ((n' @ '']'') @ body)"
    by (simp add: tag_text_def)
  also have "\<dots> = skip_to_tag False body"
    using other_case_free_of(2) [OF assms(1) a(1)] by (intro skip_to_tag_line) simp
  finally have "finditer (tag_text n' @ body) = []"
    using assms(2) by (simp add: finditer_def matches_from_None match_tag_Nil)
  then show ?thesis
    by (simp add: parse_template_def)
qed

text \<open>
  C7, amended.  The six tags are recognised in their fixed spelling only, and wherever
  they open a line.  For every text: the matches of the pattern are exactly the bracketed
  names of the list that stand at the start of the text or right after a newline, each with
  the text up to the next match; the keys of the parsed map are the lower-cased names of
  these tags.  For a name \<open>m\<close> of the list: its key is present exactly when \<open>[m]\<close>, spelled
  as listed, stands at the start of some line; a tag \<open>[m']\<close> in any other casing is never a
  match; the value stored under the key is built from the text that follows the last such
  tag, up to the next match; a text that begins with \<open>[m]\<close> and has no further tag parses to
  that one section, and the same text with \<open>[m']\<close> in another casing parses to no section
  at all.
\<close>

theorem C7_tag_case:
  "((n, raw) \<in> set (finditer t) \<longleftrightarrow>
      (\<exists>pre post. n \<in> set section_names \<and> t = pre @ ''['' @ n @ '']'' @ post
         \<and> (pre = [] \<or> last pre = CHR ''\<newline>'') \<and> raw = text_to_tag False post))
   \<and> (k \<in> dom (parse_template t) \<longleftrightarrow>
      (\<exists>n pre post. n \<in> set section_names \<and> k = lower n \<and> t = pre @ ''['' @ n @ '']'' @ post
         \<and> (pre = [] \<or> last pre = CHR ''\<newline>'')))
   \<and> (m \<in> set section_names \<longrightarrow>
        (lower m \<in> dom (parse_template t) \<longleftrightarrow>
           (\<exists>pre post. t = pre @ ''['' @ m @ '']'' @ post \<and> (pre = [] \<or> last pre = CHR ''\<newline>'')))
      \<and> (lower m' = lower m \<and> m' \<noteq> m \<longrightarrow> (m', raw') \<notin> set (finditer t))
      \<and> ((p = [] \<or> last p = CHR ''\<newline>'')
           \<and> m \<notin> fst ` set (matches_from (skip_to_tag False q))
          \<longrightarrow> parse_template (p @ ''['' @ m @ '']'' @ q) (lower m)
                = Some (section_value (lower m) (text_to_tag False q)))
      \<and> (skip_to_tag False body = [] \<longrightarrow>
            parse_template (''['' @ m @ '']'' @ body) = [lower m \<mapsto> section_value (lower m) body]
          \<and> (lower m' = lower m \<and> m' \<noteq> m
               \<longrightarrow> parse_template (''['' @ m' @ '']'' @ body) = Map.empty)))"
proof -
  have tt: "\<And>x y. ''['' @ x @ '']'' @ y = tag_text x @ y"
    by (simp add: tag_text_def)
  have one: "(n, raw) \<in> set (finditer t) \<longleftrightarrow>
      (\<exists>pre post. n \<in> set section_names \<and> t = pre @ ''['' @ n @ '']'' @ post
         \<and> (pre = [] \<or> last pre = CHR ''\<newline>'') \<and> raw = text_to_tag False post)"
    unfolding tt by (rule finditer_iff)
  have two: "k \<in> dom (parse_template t) \<longleftrightarrow>
      (\<exists>n pre post. n \<in> set section_names \<and> k = lower n \<and> t = pre @ ''['' @ n @ '']'' @ post
         \<and> (pre = [] \<or> last pre = CHR ''\<newline>''))"
    unfolding tt by (rule parse_template_dom_iff)
  have three: "(lower m \<in> dom (parse_template t) \<longleftrightarrow>
           (\<exists>pre post. t = pre @ ''['' @ m @ '']'' @ post \<and> (pre = [] \<or> last pre = CHR ''\<newline>'')))
      \<and> (lower m' = lower m \<and> m' \<noteq> m \<longrightarrow> (m', raw') \<notin> set (finditer t))
      \<and> ((p = [] \<or> last p = CHR ''\<newline>'')
           \<and> m \<notin> fst ` set (matches_from (skip_to_tag False q))
          \<longrightarrow> parse_template (p @ ''['' @ m @ '']'' @ q) (lower m)
                = Some (section_value (lower m) (text_to_tag False q)))
      \<and> (skip_to_tag False body = [] \<longrightarrow>
            parse_template (''['' @ m @ '']'' @ body) = [lower m \<mapsto> section_value (lower m) body]
          \<and> (lower m' = lower m \<and> m' \<noteq> m
               \<longrightarrow> parse_template (''['' @ m' @ '']'' @ body) = Map.empty))"
    if m: "m \<in> set section_names"
  proof -
    have a: "lower m \<in> dom (parse_template t) \<longleftrightarrow>
           (\<exists>pre post. t = pre @ ''['' @ m @ '']'' @ post \<and> (pre = [] \<or> last pre = CHR ''\<newline>''))"
      unfolding tt using m by (rule parse_template_has_iff)
    have b: "lower m' = lower m \<and> m' \<noteq> m \<longrightarrow> (m', raw') \<notin> set (finditer t)"
      using other_case_never_matched [OF m] by blast
    have c: "(p = [] \<or> last p = CHR ''\<newline>'')
           \<and> m \<notin> fst ` set (matches_from (skip_to_tag False q))
          \<longrightarrow> parse_template (p @ ''['' @ m @ '']'' @ q) (lower m)
                = Some (section_value (lower m) (text_to_tag False q))"
      unfolding tt using parse_template_section [OF m] by blast
    have d: "skip_to_tag False body = [] \<longrightarrow>
            parse_template (''['' @ m @ '']'' @ body) = [lower m \<mapsto> section_value (lower m) body]
          \<and> (lower m' = lower m \<and> m' \<noteq> m
               \<longrightarrow> parse_template (''['' @ m' @ '']'' @ body) = Map.empty)"
      unfolding tt using parse_single_tag [OF m] parse_other_case [OF m] by blast
    show ?thesis
      by (rule conjI [OF a conjI [OF b conjI [OF c d]]])
  qed
  then have three': "m \<in> set section_names \<longrightarrow>
        (lower m \<in> dom (parse_template t) \<longleftrightarrow>
           (\<exists>pre post. t = pre @ ''['' @ m @ '']'' @ post \<and> (pre = [] \<or> last pre = CHR ''\<newline>'')))
      \<and> (lower m' = lower m \<and> m' \<noteq> m \<longrightarrow> (m', raw') \<notin> set (finditer t))
      \<and> ((p = [] \<or> last p = CHR ''\<newline>'')
           \<and> m \<notin> fst ` set (matches_from (skip_to_tag False q))
          \<longrightarrow> parse_template (p @ ''['' @ m @ '']'' @ q) (lower m)
                = Some (section_value (lower m) (text_to_tag False q)))
      \<and> (skip_to_tag False body = [] \<longrightarrow>
            parse_template (''['' @ m @ '']'' @ body) = [lower m \<mapsto> section_value (lower m) body]
          \<and> (lower m' = lower m \<and> m' \<noteq> m
               \<longrightarrow> parse_template (''['' @ m' @ '']'' @ body) = Map.empty))"
    by (rule impI)
  show ?thesis
    by (rule conjI [OF one conjI [OF two three']])
qed

theorem C7_tag_case_witness:
  "''testing'' \<in> dom (parse_template (''junk\<newline>'' @ ''['' @ ''Testing'' @ '']'' @ ''\<newline> nmap\<newline>[TESTING]\<newline>x''))
   \<and> (''TESTING'', ''\<newline>x'') \<notin> set (finditer (''junk\<newline>'' @ ''['' @ ''Testing'' @ '']'' @ ''\<newline> nmap\<newline>[TESTING]\<newline>x''))
   \<and> parse_template (''junk\<newline>'' @ ''['' @ ''Testing'' @ '']'' @ ''\<newline> nmap\<newline>[TESTING]\<newline>x'') ''testing''
        = Some (Text ''nmap\<newline>[TESTING]\<newline>x'')
   \<and> parse_template (''['' @ ''Testing'' @ '']'' @ '' nmap'') = [''testing'' \<mapsto> Text ''nmap'']
   \<and> parse_template (''['' @ ''TESTING'' @ '']'' @ '' nmap'') = Map.empty"
proof -
  let ?p = "''junk\<newline>''"
  let ?q = "''\<newline> nmap\<newline>[TESTING]\<newline>x''"
  let ?t = "?p @ ''['' @ ''Testing'' @ '']'' @ ?q"
  have a: "''Testing'' \<in> set section_names"
    by (simp add: section_names_def)
  have b: "skip_to_tag False '' nmap'' = []"
    by (simp add: match_tag_def section_names_def tag_text_def)
  have c: "lower ''TESTING'' = lower ''Testing'' \<and> ''TESTING'' \<noteq> ''Testing''"
    by (simp add: lower_def is_upper_def)
  have d: "lower ''Testing'' = ''testing''"
    by (simp add: lower_def is_upper_def)
  have e: "section_value ''testing'' '' nmap'' = Text ''nmap''"
    by (simp add: section_value_def strip_def is_space_def)
  have sk: "skip_to_tag False ?q = []"
    by (simp add: match_tag_def section_names_def tag_text_def)
  then have tx: "text_to_tag False ?q = ?q"
    by (rule text_to_tag_no_tag)
  have g: "(?p = [] \<or> last ?p = CHR ''\<newline>'')
      \<and> ''Testing'' \<notin> fst ` set (matches_from (skip_to_tag False ?q))"
    unfolding sk by (simp add: matches_from_None match_tag_Nil)
  have h: "section_value ''testing'' ?q = Text ''nmap\<newline>[TESTING]\<newline>x''"
    by (simp add: section_value_def strip_def is_space_def)
  have i: "\<exists>pre post. ?t = pre @ ''['' @ ''Testing'' @ '']'' @ post
      \<and> (pre = [] \<or> last pre = CHR ''\<newline>'')"
    by (rule exI [of _ ?p], rule exI [of _ ?q]) simp
  note inst = C7_tag_case [of _ _ ?t _ "''Testing''" "''TESTING''" "''\<newline>x''" ?p ?q "'' nmap''",
      THEN conjunct2, THEN conjunct2, THEN mp, OF a]
  from inst [THEN conjunct1] i have one: "lower ''Testing'' \<in> dom (parse_template ?t)"
    by (rule iffD2)
  from inst [THEN conjunct2, THEN conjunct1] c
  have two: "(''TESTING'', ''\<newline>x'') \<notin> set (finditer ?t)"
    by (rule mp)
  from inst [THEN conjunct2, THEN conjunct2, THEN conjunct1] g
  have three: "parse_template ?t (lower ''Testing'')
      = Some (section_value (lower ''Testing'') (text_to_tag False ?q))"
    by (rule mp)
  from inst [THEN conjunct2, THEN conjunct2, THEN conjunct2] b
  have four: "parse_template (''['' @ ''Testing'' @ '']'' @ '' nmap'')
        = [lower ''Testing'' \<mapsto> section_value (lower ''Testing'') '' nmap'']
      \<and> (lower ''TESTING'' = lower ''Testing'' \<and> ''TESTING'' \<noteq> ''Testing''
           \<longrightarrow> parse_template (''['' @ ''TESTING'' @ '']'' @ '' nmap'') = Map.empty)"
    by (rule mp)
  from four c have five: "parse_template (''['' @ ''TESTING'' @ '']'' @ '' nmap'') = Map.empty"
    by blast
  from one have one': "''testing'' \<in> dom (parse_template ?t)"
    unfolding d .
  from three have three': "parse_template ?t ''testing'' = Some (Text ''nmap\<newline>[TESTING]\<newline>x'')"
    unfolding d tx h .
  from four have four': "parse_template (''['' @ ''Testing'' @ '']'' @ '' nmap'') = [''testing'' \<mapsto> Text ''nmap'']"
    unfolding d e by (rule conjunct1)
  show ?thesis
    by (rule conjI [OF one' conjI [OF two conjI [OF three' conjI [OF four' five]]]])
qed

subsection \<open>Saving a draft keeps the other conclusion\<close>

lemma save_draft_sections_other:
  assumes "k \<notin> {''introduction'', ''testing'', ''documentation'', ''scripts''}"
    and "k \<noteq> ''conclusion-'' @ or_default (d_conclusion_type d) ''pass''"
  shows "save_draft_sections (Some old) d k = parse_template old k"
  using assms by (simp add: save_draft_sections_def Let_def)

lemma save_draft_sections_conclusion:
  "save_draft_sections existing d (''conclusion-'' @ or_default (d_conclusion_type d) ''pass'')
     = Some (Text (or_default (d_conclusion d) ''No conclusion available.''))"
  by (simp add: save_draft_sections_def Let_def)

lemma save_draft_sections_fixed:
  "save_draft_sections existing d ''introduction''
     = Some (Text (or_default (d_introduction d) ''No introduction provided.''))"
  "save_draft_sections existing d ''testing''
     = Some (Text (or_default (d_testing_methodology d) ''No testing methodology provided.''))"
  "save_draft_sections existing d ''documentation''
     = Some (Text (or_default (d_documentation d) ''No documentation provided.''))"
  "save_draft_sections existing d ''scripts'' = Some (Lines (draft_scripts d))"
  by (simp_all add: save_draft_sections_def Let_def)

lemma lower_text_keys:
  "map lower text_keys = [''introduction'', ''testing'', ''documentation'',
     ''conclusion-pass'', ''conclusion-fail'']"
  by (simp add: text_keys_def lower_def is_upper_def)

lemma template_content_blocks:
  "template_content sections =
     block ''Introduction'' (get_text sections ''introduction'')
     @ block ''Testing'' (get_text sections ''testing'')
     @ block ''Documentation'' (get_text sections ''documentation'')
     @ block ''conclusion-pass'' (get_text sections ''conclusion-pass'')
     @ block ''conclusion-fail'' (get_text sections ''conclusion-fail'')
     @ scripts_block (get_scripts sections)"
proof -
  have "map (\<lambda>key. block key (get_text sections (lower key))) text_keys
      = map (\<lambda>(key, k). block key (get_text sections k)) (zip text_keys (map lower text_keys))"
    by (simp add: zip_map2 comp_def case_prod_unfold flip: map_map) (simp add: zip_same_conv_map)
  also have "\<dots> = [block ''Introduction'' (get_text sections ''introduction''),
       block ''Testing'' (get_text sections ''testing''),
       block ''Documentation'' (get_text sections ''documentation''),
       block ''conclusion-pass'' (get_text sections ''conclusion-pass''),
       block ''conclusion-fail'' (get_text sections ''conclusion-fail'')]"
    unfolding lower_text_keys by (simp add: text_keys_def)
  finally show ?thesis
    by (simp add: template_content_def)
qed

text \<open>
  C10.  When \<open>save_draft\<close> rewrites an existing draft with conclusion type \<open>pass\<close>, the
  dictionary it serialises holds under \<open>conclusion-fail\<close> exactly what \<open>parse_template\<close>
  read from the old file, and under \<open>conclusion-pass\<close> the incoming conclusion; the text
  written carries the old fail content in its \<open>[conclusion-fail]\<close> block, between the
  incoming sections.  With conclusion type \<open>fail\<close> the two keys change places.
\<close>

theorem C10_save_draft_frame:
  assumes "conclusion_type = or_default (d_conclusion_type d) ''pass''"
    and "introduction = or_default (d_introduction d) ''No introduction provided.''"
    and "testing_methodology = or_default (d_testing_methodology d) ''No testing methodology provided.''"
    and "documentation = or_default (d_documentation d) ''No documentation provided.''"
    and "conclusion = or_default (d_conclusion d) ''No conclusion available.''"
  shows "(conclusion_type = ''pass'' \<longrightarrow>
            save_draft_sections (Some old) d ''conclusion-fail'' = parse_template old ''conclusion-fail''
          \<and> save_draft_sections (Some old) d ''conclusion-pass'' = Some (Text conclusion)
          \<and> save_draft (Some old) d = strip (
                block ''Introduction'' introduction
              @ block ''Testing'' testing_methodology
              @ block ''Documentation'' documentation
              @ block ''conclusion-pass'' conclusion
              @ block ''conclusion-fail'' (get_text (parse_template old) ''conclusion-fail'')
              @ scripts_block (draft_scripts d)))
       \<and> (conclusion_type = ''fail'' \<longrightarrow>
            save_draft_sections (Some old) d ''conclusion-pass'' = parse_template old ''conclusion-pass''
          \<and> save_draft_sections (Some old) d ''conclusion-fail'' = Some (Text conclusion)
          \<and> save_draft (Some old) d = strip (
                block ''Introduction'' introduction
              @ block ''Testing'' testing_methodology
              @ block ''Documentation'' documentation
              @ block ''conclusion-pass'' (get_text (parse_template old) ''conclusion-pass'')
              @ block ''conclusion-fail'' conclusion
              @ scripts_block (draft_scripts d)))"
proof (intro conjI impI)
  assume p: "conclusion_type = ''pass''"
  with assms(1) have ct: "or_default (d_conclusion_type d) ''pass'' = ''pass''" by simp
  show f: "save_draft_sections (Some old) d ''conclusion-fail'' = parse_template old ''conclusion-fail''"
    by (rule save_draft_sections_other) (simp_all add: ct)
  show c: "save_draft_sections (Some old) d ''conclusion-pass'' = Some (Text conclusion)"
    using save_draft_sections_conclusion [of "Some old" d] ct assms(5) by simp
  show "save_draft (Some old) d = strip (
                block ''Introduction'' introduction
              @ block ''Testing'' testing_methodology
              @ block ''Documentation'' documentation
              @ block ''conclusion-pass'' conclusion
              @ block ''conclusion-fail'' (get_text (parse_template old) ''conclusion-fail'')
              @ scripts_block (draft_scripts d))"
    unfolding save_draft_def serialize_def template_content_blocks
    by (simp only: get_text_def get_scripts_def f c save_draft_sections_fixed assms(2,3,4)
        option.case secval.case)
next
  assume p: "conclusion_type = ''fail''"
  with assms(1) have ct: "or_default (d_conclusion_type d) ''pass'' = ''fail''" by simp
  show f: "save_draft_sections (Some old) d ''conclusion-pass'' = parse_template old ''conclusion-pass''"
    by (rule save_draft_sections_other) (simp_all add: ct)
  show c: "save_draft_sections (Some old) d ''conclusion-fail'' = Some (Text conclusion)"
    using save_draft_sections_conclusion [of "Some old" d] ct assms(5) by simp
  show "save_draft (Some old) d = strip (
                block ''Introduction'' introduction
              @ block ''Testing'' testing_methodology
              @ block ''Documentation'' documentation
              @ block ''conclusion-pass'' (get_text (parse_template old) ''conclusion-pass'')
              @ block ''conclusion-fail'' conclusion
              @ scripts_block (draft_scripts d))"
    unfolding save_draft_def serialize_def template_content_blocks
    by (simp only: get_text_def get_scripts_def f c save_draft_sections_fixed assms(2,3,4)
        option.case secval.case)
qed
theorem C10_save_draft_frame_witness:
  "save_draft (Some (''[conclusion-pass]'' @ ''\<newline>'' @ ''ok'' @ ''\<newline>\<newline>'' @ ''[conclusion-fail]'' @ ''\<newline>'' @ ''bad''))
     \<lparr>d_introduction = Some ''i'', d_testing_methodology = Some ''t'', d_documentation = Some ''d'',
      d_conclusion_type = Some ''pass'', d_conclusion = Some ''fine'', d_scripts = None\<rparr>
   = ''[Introduction]'' @ ''\<newline>'' @ ''i'' @ ''\<newline>\<newline>''
     @ ''[Testing]'' @ ''\<newline>'' @ ''t'' @ ''\<newline>\<newline>''
     @ ''[Documentation]'' @ ''\<newline>'' @ ''d'' @ ''\<newline>\<newline>''
     @ ''[conclusion-pass]'' @ ''\<newline>'' @ ''fine'' @ ''\<newline>\<newline>''
     @ ''[conclusion-fail]'' @ ''\<newline>'' @ ''bad''"
proof -
  let ?old = "''[conclusion-pass]'' @ ''\<newline>'' @ ''ok'' @ ''\<newline>\<newline>'' @ ''[conclusion-fail]'' @ ''\<newline>'' @ ''bad''"
  let ?d = "\<lparr>d_introduction = Some ''i'', d_testing_methodology = Some ''t'', d_documentation = Some ''d'',
      d_conclusion_type = Some ''pass'', d_conclusion = Some ''fine'', d_scripts = None\<rparr>"
  have old: "parse_template ?old ''conclusion-fail'' = Some (Text ''bad'')"
    by (simp add: parse_template_def finditer_def match_tag_def section_names_def tag_text_def
      section_value_def strip_def is_space_def is_upper_def lower_def matches_from.simps)
  have "save_draft (Some ?old) ?d = strip (
                block ''Introduction'' ''i''
              @ block ''Testing'' ''t''
              @ block ''Documentation'' ''d''
              @ block ''conclusion-pass'' ''fine''
              @ block ''conclusion-fail'' (get_text (parse_template ?old) ''conclusion-fail'')
              @ scripts_block (draft_scripts ?d))"
    using C10_save_draft_frame [of "''pass''" ?d "''i''" "''t''" "''d''" "''fine''" ?old]
    by (simp add: or_default_def)
  then show ?thesis
    unfolding get_text_def old
    by (simp add: block_def scripts_block_def draft_scripts_def strip_def is_space_def)
qed

section \<open>Attachments: results\<close>

text \<open>
  C2 at a concrete request to \<^verbatim>\<open>upload_single_attachment\<close>: one file, a token and the
  mission UIDs in place, the remote API answering 500.  The endpoint answers 500 and the
  file and its sidecar are still in the directory: the entries of \<^verbatim>\<open>uploaded_files\<close> have no
  \<^verbatim>\<open>file_path\<close>, so the upload helper fails before any request and the rollback removes
  nothing.
\<close>

theorem C2_single_upload_leaves_files:
  "(case upload_single_attachment
      \<lparr>e_token = Some ''tok'', e_uids = True, e_remote = Post_Response 500 [],
       e_now = ''t0'', e_uuid4 = (\<lambda>i. ''u1''), e_secure_filename = (\<lambda>s. s)\<rparr>
      ''T'' ''D'' \<lparr>files = [], sidecars = Map.empty\<rparr>
      [\<lparr>up_filename = ''a.png'', up_content_type = Some ''image/png'', up_size = 3\<rparr>]
    of (status_code, d) \<Rightarrow>
      status_code = 500 \<and> files d = [''u1_a.png''] \<and> sidecars d ''u1_a.png.json'' \<noteq> None)"
  by (simp add: upload_single_attachment_def upload_endpoint_def save_file_def
      upload_multiple_attachments_to_api_def strip_def is_space_def Let_def)

text \<open>The same request to \<^verbatim>\<open>upload_attachments\<close> leaves the directory as it was.\<close>

lemma upload_attachments_rolls_back_example:
  "upload_attachments
      \<lparr>e_token = Some ''tok'', e_uids = True, e_remote = Post_Response 500 [],
       e_now = ''t0'', e_uuid4 = (\<lambda>i. ''u1''), e_secure_filename = (\<lambda>s. s)\<rparr>
      ''T'' ''D'' \<lparr>files = [], sidecars = Map.empty\<rparr>
      [\<lparr>up_filename = ''a.png'', up_content_type = Some ''image/png'', up_size = 3\<rparr>]
   = (500, \<lparr>files = [], sidecars = Map.empty\<rparr>)"
  by (simp add: upload_attachments_def upload_endpoint_def save_file_def remove_file_def
      upload_multiple_attachments_to_api_def strip_def is_space_def Let_def)

subsection \<open>Promotion to the remote id\<close>

lemma after_underscore_id:
  assumes "CHR ''_'' \<notin> set u"
  shows "after_underscore (u @ ''_'' @ orig) = orig"
proof -
  have "dropWhile (\<lambda>c. c \<noteq> CHR ''_'') (u @ CHR ''_'' # orig)
      = dropWhile (\<lambda>c. c \<noteq> CHR ''_'') (CHR ''_'' # orig)"
    by (rule dropWhile_append2) (use assms in auto)
  then show ?thesis
    by (simp add: after_underscore_def)
qed

lemma prefix_before_underscore:
  assumes "prefix u (r @ CHR ''_'' # x)" and "CHR ''_'' \<notin> set u"
  shows "prefix u r"
proof -
  from assms(1) consider "prefix u r" | us where "u = r @ us" and "prefix us (CHR ''_'' # x)"
    by (auto simp: prefix_append)
  then show ?thesis
  proof cases
    case 1
    then show ?thesis .
  next
    case 2
    with assms(2) show ?thesis
      by (cases us) auto
  qed
qed

lemma remote_prefix_differs:
  assumes "CHR ''_'' \<notin> set u" and "\<not> prefix u r"
  shows "\<not> prefix (r @ ''_'') (u @ ''_'' @ orig)"
proof
  assume "prefix (r @ ''_'') (u @ ''_'' @ orig)"
  then obtain zs where eq: "u @ CHR ''_'' # orig = r @ CHR ''_'' # zs"
    by (auto simp: prefix_def)
  then have "prefix u (r @ CHR ''_'' # zs)"
    by (metis prefixI)
  with assms show False
    using prefix_before_underscore by blast
qed

lemma local_prefix_gone:
  assumes "CHR ''_'' \<notin> set u" and "\<not> prefix u r"
  shows "\<not> prefix (u @ ''_'') (r @ ''_'' @ orig)"
proof
  assume "prefix (u @ ''_'') (r @ ''_'' @ orig)"
  then have "prefix u (r @ CHR ''_'' # orig)"
    by (auto dest: append_prefixD)
  with assms show False
    using prefix_before_underscore by blast
qed

lemma stem_split:
  assumes "CHR ''.'' \<in> set p"
  shows "\<exists>rest. p = rev (drop 1 (dropWhile (\<lambda>c. c \<noteq> CHR ''.'') (rev p))) @ CHR ''.'' # rest"
proof -
  let ?P = "\<lambda>c. c \<noteq> CHR ''.''"
  from assms have "dropWhile ?P (rev p) \<noteq> []"
    by (simp add: dropWhile_eq_Nil_conv)
  then obtain c cs where dw: "dropWhile ?P (rev p) = c # cs"
    by (cases "dropWhile ?P (rev p)") auto
  then have "\<not> ?P c"
    using hd_dropWhile [of ?P "rev p"] by simp
  then have c: "c = CHR ''.''" by simp
  have "rev p = takeWhile ?P (rev p) @ dropWhile ?P (rev p)"
    by simp
  then have "p = rev (dropWhile ?P (rev p)) @ rev (takeWhile ?P (rev p))"
    by (metis rev_append rev_rev_ident)
  with dw c
  have "p = rev (drop 1 (dropWhile ?P (rev p))) @ CHR ''.'' # rev (takeWhile ?P (rev p))"
    by simp
  then show ?thesis ..
qed

lemma splitext_root_differs:
  assumes "CHR ''_'' \<notin> set u" and "\<not> prefix u r"
  shows "splitext_root (r @ ''_'' @ orig) \<noteq> u"
proof
  let ?p = "r @ ''_'' @ orig"
  assume eq: "splitext_root ?p = u"
  show False
  proof (cases "splitext_root ?p = ?p")
    case True
    with eq assms(1) show False by auto
  next
    case False
    then have dot: "CHR ''.'' \<in> set ?p"
      and st: "splitext_root ?p = rev (drop 1 (dropWhile (\<lambda>c. c \<noteq> CHR ''.'') (rev ?p)))"
      by (auto simp: splitext_root_def Let_def split: if_splits)
    from stem_split [OF dot] st eq obtain rest where "?p = u @ CHR ''.'' # rest"
      by auto
    then have "prefix u (r @ CHR ''_'' # orig)"
      by (auto simp: prefix_def)
    with assms show False
      using prefix_before_underscore by blast
  qed
qed

lemma not_temp:
  assumes "\<not> prefix ''temp_'' (r @ ''_'')"
  shows "\<not> prefix ''temp_'' (r @ ''_'' @ orig)"
proof
  assume p: "prefix ''temp_'' (r @ ''_'' @ orig)"
  show False
  proof (cases "length r < 4")
    case True
    from p obtain zs where eq: "r @ ''_'' @ orig = ''temp_'' @ zs"
      by (auto simp: prefix_def)
    have "(r @ ''_'' @ orig) ! length r = CHR ''_''"
      by (simp add: nth_append)
    with eq have "(''temp_'' @ zs) ! length r = CHR ''_''"
      by simp
    moreover from True have "length r = 0 \<or> length r = 1 \<or> length r = 2 \<or> length r = 3"
      by arith
    ultimately show False
      by (elim disjE) simp_all
  next
    case False
    have "prefix (r @ ''_'') (r @ ''_'' @ orig)"
      by simp
    moreover from False have "length ''temp_'' \<le> length (r @ ''_'')"
      by simp
    ultimately have "prefix ''temp_'' (r @ ''_'')"
      using p prefix_length_prefix by blast
    with assms show False ..
  qed
qed

text \<open>The directory after the promotion of a file stored as \<open>u_orig\<close> to the remote id
  \<open>r\<close>.\<close>

lemma promote_item_result:
  assumes f: "f = u @ ''_'' @ orig" and inf: "f \<in> set (files d)"
    and sc: "sidecars d (f @ ''.json'') = Some md"
    and item: "li_filename item = f" "li_file_path item = Some f"
    and u: "CHR ''_'' \<notin> set u" and ur: "\<not> prefix u r"
    and new: "new = r @ ''_'' @ orig"
  shows "files (promote_item now d r item (f @ ''.json''))
           = map (\<lambda>x. if x = f then new else x) (removeAll new (files d))"
    and "sidecars (promote_item now d r item (f @ ''.json''))
           = (sidecars d)(f @ ''.json'' := None,
                new @ ''.json'' \<mapsto> md\<lparr>m_synack_id := Some r, m_uploaded_to_api := True,
                       m_upload_api_time := Some now, m_filename := new\<rparr>)"
proof -
  have np: "\<not> prefix (r @ ''_'') f"
    unfolding f using u ur by (rule remote_prefix_differs)
  have base: "after_underscore f = orig"
    unfolding f using u by (rule after_underscore_id)
  have ne: "f \<noteq> new"
  proof
    assume "f = new"
    with f new have "prefix u (r @ CHR ''_'' # orig)"
      by (auto simp: prefix_def)
    with u ur show False
      using prefix_before_underscore by blast
  qed
  then have ne': "f @ ''.json'' \<noteq> new @ ''.json''"
    by simp
  show "files (promote_item now d r item (f @ ''.json''))
           = map (\<lambda>x. if x = f then new else x) (removeAll new (files d))"
    using np base ne ne' inf sc item new
    by (simp add: promote_item_def Let_def rename_file_def rename_sidecar_def)
  show "sidecars (promote_item now d r item (f @ ''.json''))
           = (sidecars d)(f @ ''.json'' := None,
                new @ ''.json'' \<mapsto> md\<lparr>m_synack_id := Some r, m_uploaded_to_api := True,
                       m_upload_api_time := Some now, m_filename := new\<rparr>)"
    using np base ne ne' inf sc item new
    by (auto simp: promote_item_def Let_def rename_file_def rename_sidecar_def fun_eq_iff)
qed

text \<open>
  C6 as stated fails.  One file goes through \<^verbatim>\<open>upload_attachments\<close> with the generated id
  \<open>u1\<close> and comes back from the remote API as \<open>R9\<close>.  Afterwards the lookup of
  \<^verbatim>\<open>upload_to_api\<close> by the old id \<open>u1\<close> still finds the renamed file, through the \<^verbatim>\<open>id\<close>
  kept in its sidecar.
\<close>

theorem C6_old_id_counterexample:
  "(case upload_attachments
      \<lparr>e_token = Some ''tok'', e_uids = True, e_remote = Post_Response 200 [Some ''R9''],
       e_now = ''t0'', e_uuid4 = (\<lambda>i. ''u1''), e_secure_filename = (\<lambda>s. s)\<rparr>
      ''T'' ''D'' \<lparr>files = [], sidecars = Map.empty\<rparr>
      [\<lparr>up_filename = ''a.png'', up_content_type = Some ''image/png'', up_size = 3\<rparr>]
    of (status_code, d) \<Rightarrow>
      status_code = 200 \<and> files d = [''R9_a.png'']
      \<and> find_for_upload d ''u1'' (files d) = Some ''R9_a.png'')"
  by (simp add: upload_attachments_def upload_endpoint_def save_file_def
      upload_multiple_attachments_to_api_def strip_def is_space_def Let_def
      promote_item_def after_underscore_def rename_file_def rename_sidecar_def
      upload_match_def name_match_def splitext_root_def)

text \<open>The search loops return the first listed file that passes their test.\<close>

lemma find_for_upload_find:
  "find_for_upload d a fs = List.find (\<lambda>g. \<not> prefix ''temp_'' g \<and> upload_match d a g) fs"
  by (induction fs) simp_all

lemma find_for_helper_find:
  "find_for_helper d a fs = List.find (\<lambda>g. \<not> prefix ''temp_'' g \<and> helper_match d a g) fs"
  by (induction fs) simp_all

lemma find_for_download_find:
  "find_for_download d a fs = List.find (\<lambda>g. \<not> prefix ''temp_'' g \<and> download_match d a g) fs"
  by (induction fs) simp_all

lemma find_passes: "List.find P fs = Some g \<Longrightarrow> g \<in> set fs \<and> P g"
  by (induction fs) (auto split: if_splits)

lemma find_some: "x \<in> set fs \<Longrightarrow> P x \<Longrightarrow> \<exists>g. List.find P fs = Some g \<and> g \<in> set fs \<and> P g"
  by (induction fs) auto

lemma find_only:
  "x \<in> set fs \<Longrightarrow> P x \<Longrightarrow> (\<And>g. g \<in> set fs \<Longrightarrow> g \<noteq> x \<Longrightarrow> \<not> P g) \<Longrightarrow> List.find P fs = Some x"
  by (induction fs) auto

lemma filter_only:
  "x \<in> set fs \<Longrightarrow> P x \<Longrightarrow> (\<And>g. g \<in> set fs \<Longrightarrow> g \<noteq> x \<Longrightarrow> \<not> P g) \<Longrightarrow> set (filter P fs) = {x}"
  by auto

lemma hd_filter_only:
  "x \<in> set fs \<Longrightarrow> P x \<Longrightarrow> (\<And>g. g \<in> set fs \<Longrightarrow> g \<noteq> x \<Longrightarrow> \<not> P g)
   \<Longrightarrow> \<exists>rest. filter P fs = x # rest"
proof -
  assume a: "x \<in> set fs" "P x" "\<And>g. g \<in> set fs \<Longrightarrow> g \<noteq> x \<Longrightarrow> \<not> P g"
  then have s: "set (filter P fs) = {x}"
    by (rule filter_only)
  then obtain y rest where e: "filter P fs = y # rest"
    by (cases "filter P fs") auto
  with s have "y = x" by auto
  with e show ?thesis by simp
qed

lemma get_attachment_by_id:
  assumes "a \<noteq> []" and "a \<notin> set (files d)" and "36 \<le> length a" and "CHR ''-'' \<in> set a"
  shows "get_attachment d a =
    (case filter (\<lambda>g. prefix (a @ ''_'') g) (files d) of [] \<Rightarrow> None | g # rest \<Rightarrow> Some g)"
  using assms by (simp add: get_attachment_def)

lemma get_attachment_passes:
  assumes "get_attachment d a = Some g"
  shows "g \<in> set (files d) \<and> (g = a \<or> prefix (a @ ''_'') g)"
proof (cases "a \<in> set (files d)")
  case True
  with assms show ?thesis
    by (simp add: get_attachment_def split: if_splits)
next
  case False
  with assms obtain rest where e: "filter (\<lambda>g. prefix (a @ ''_'') g) (files d) = g # rest"
    by (auto simp: get_attachment_def split: if_splits list.splits)
  have "g \<in> set (filter (\<lambda>g. prefix (a @ ''_'') g) (files d))"
    unfolding e by simp
  then show ?thesis by simp
qed

text \<open>
  C6, amended.  A file stored as \<open>u_orig\<close> with a sidecar whose \<^verbatim>\<open>id\<close> is \<open>u\<close> is promoted
  to the remote id \<open>r\<close>, where \<open>u\<close> has no underscore, \<open>r\<close> does not begin with \<open>u\<close>, and
  \<open>r_\<close> does not begin with \<^verbatim>\<open>temp_\<close>.  Then the file is listed as \<open>r_orig\<close> and no longer as
  \<open>u_orig\<close>, and its sidecar has moved with it, with \<^verbatim>\<open>synack_id\<close> and \<^verbatim>\<open>uploaded_to_api\<close>
  set.

  By the remote id: the renamed file passes the test of each of the five lookups, namely
  \<^verbatim>\<open>upload_to_api\<close>, the helper \<^verbatim>\<open>upload_attachment_to_api\<close>, \<^verbatim>\<open>download_attachment\<close>,
  \<^verbatim>\<open>delete_synack_attachment\<close> (which collects it) and the id fallback of \<^verbatim>\<open>get_attachment\<close>
  (for an id of at least 36 characters with a hyphen that is not itself a file name).  Each
  first-match lookup returns a file that passes its test for \<open>r\<close>; when no other file of the
  directory matched \<open>r\<close> before, that file is the renamed one, and it is the only one the
  delete endpoint collects.

  By the old id \<open>u\<close>: the renamed file matches neither by its name nor in the lookups of
  \<^verbatim>\<open>download_attachment\<close>, \<^verbatim>\<open>delete_synack_attachment\<close> and \<^verbatim>\<open>get_attachment\<close>, none of which
  returns it; in the lookups of \<^verbatim>\<open>upload_to_api\<close> and of the helper it still matches, by the
  \<^verbatim>\<open>id\<close> that the sidecar keeps.
\<close>

theorem C6_promotion:
  assumes f: "f = u @ ''_'' @ orig" and inf: "f \<in> set (files d)"
    and sc: "sidecars d (f @ ''.json'') = Some md" and id: "m_id md = u"
    and item: "li_filename item = f" "li_file_path item = Some f"
    and u: "CHR ''_'' \<notin> set u" and ur: "\<not> prefix u r" and tmp: "\<not> prefix ''temp_'' (r @ ''_'')"
    and new: "new = r @ ''_'' @ orig"
    and d': "d' = promote_item now d r item (f @ ''.json'')"
  shows "(new \<in> set (files d') \<and> f \<notin> set (files d')
          \<and> sidecars d' (f @ ''.json'') = None
          \<and> sidecars d' (new @ ''.json'')
              = Some (md\<lparr>m_synack_id := Some r, m_uploaded_to_api := True,
                         m_upload_api_time := Some now, m_filename := new\<rparr>))
       \<and> (\<not> prefix ''temp_'' new \<and> prefix (r @ ''_'') new
          \<and> upload_match d' r new \<and> helper_match d' r new \<and> download_match d' r new
          \<and> new \<in> set (find_for_delete d' r))
       \<and> ((\<exists>g. find_for_upload d' r (files d') = Some g \<and> g \<in> set (files d') \<and> upload_match d' r g)
          \<and> (\<exists>g. find_for_helper d' r (files d') = Some g \<and> g \<in> set (files d') \<and> helper_match d' r g)
          \<and> (\<exists>g. find_for_download d' r (files d') = Some g \<and> g \<in> set (files d') \<and> download_match d' r g)
          \<and> (r \<notin> set (files d) \<and> 36 \<le> length r \<and> CHR ''-'' \<in> set r
               \<longrightarrow> (\<exists>g. get_attachment d' r = Some g \<and> g \<in> set (files d') \<and> prefix (r @ ''_'') g)))
       \<and> ((\<forall>g\<in>set (files d). g \<noteq> f \<longrightarrow> g \<noteq> new \<longrightarrow> \<not> upload_match d r g \<and> \<not> download_match d r g)
           \<longrightarrow> find_for_upload d' r (files d') = Some new
             \<and> find_for_helper d' r (files d') = Some new
             \<and> find_for_download d' r (files d') = Some new
             \<and> set (find_for_delete d' r) = {new}
             \<and> (r \<notin> set (files d) \<and> 36 \<le> length r \<and> CHR ''-'' \<in> set r
                  \<longrightarrow> get_attachment d' r = Some new))
       \<and> (\<not> name_match u new \<and> \<not> download_match d' u new
          \<and> find_for_download d' u (files d') \<noteq> Some new
          \<and> new \<notin> set (find_for_delete d' u)
          \<and> get_attachment d' u \<noteq> Some new
          \<and> upload_match d' u new \<and> helper_match d' u new)"
proof -
  note res = promote_item_result [OF f inf sc item u ur new, of now]
  let ?U = "\<lambda>a g. \<not> prefix ''temp_'' g \<and> upload_match d' a g"
  let ?H = "\<lambda>a g. \<not> prefix ''temp_'' g \<and> helper_match d' a g"
  let ?D = "\<lambda>a g. \<not> prefix ''temp_'' g \<and> download_match d' a g"
  let ?G = "\<lambda>a g. prefix (a @ ''_'') g"
  have ne: "f \<noteq> new"
  proof
    assume "f = new"
    with f new have "prefix u (r @ CHR ''_'' # orig)"
      by (auto simp: prefix_def)
    with u ur show False
      using prefix_before_underscore by blast
  qed
  have in_new: "new \<in> set (files d')"
    using inf ne unfolding d' res(1) by (auto simp: image_iff)
  have out_f: "f \<notin> set (files d')"
    using ne unfolding d' res(1) by auto
  have side_f: "sidecars d' (f @ ''.json'') = None"
    using ne unfolding d' res(2) by simp
  have side: "sidecars d' (new @ ''.json'')
      = Some (md\<lparr>m_synack_id := Some r, m_uploaded_to_api := True,
                 m_upload_api_time := Some now, m_filename := new\<rparr>)"
    unfolding d' res(2) by simp
  have others: "g \<in> set (files d) \<and> g \<noteq> f" if "g \<in> set (files d')" and "g \<noteq> new" for g
    using that unfolding d' res(1) by (auto split: if_splits)
  have side_other: "sidecars d' (g @ ''.json'') = sidecars d (g @ ''.json'')"
    if "g \<noteq> f" and "g \<noteq> new" for g
    using that unfolding d' res(2) by simp
  have nt: "\<not> prefix ''temp_'' new"
    unfolding new using tmp by (rule not_temp)
  have pr: "prefix (r @ ''_'') new"
    by (simp add: new)
  then have by_r: "name_match r new"
    by (simp add: name_match_def)
  have um: "upload_match d' r new"
    using by_r by (simp add: upload_match_def)
  have hm: "helper_match d' r new"
    using pr by (simp add: helper_match_def)
  have dm: "download_match d' r new"
    using by_r by (simp add: download_match_def)
  have del: "new \<in> set (find_for_delete d' r)"
    using in_new nt dm by (simp add: find_for_delete_def)
  have r_ne: "r \<noteq> []" if "36 \<le> length r"
    using that by auto
  have r_out: "r \<notin> set (files d')" if "r \<notin> set (files d)"
  proof
    assume a: "r \<in> set (files d')"
    have "r \<noteq> new"
      unfolding new by simp
    with a have "r \<in> set (files d)"
      using others by blast
    with that show False ..
  qed
  have one: "new \<in> set (files d') \<and> f \<notin> set (files d')
          \<and> sidecars d' (f @ ''.json'') = None
          \<and> sidecars d' (new @ ''.json'')
              = Some (md\<lparr>m_synack_id := Some r, m_uploaded_to_api := True,
                         m_upload_api_time := Some now, m_filename := new\<rparr>)"
    using in_new out_f side_f side by simp
  have two: "\<not> prefix ''temp_'' new \<and> prefix (r @ ''_'') new
          \<and> upload_match d' r new \<and> helper_match d' r new \<and> download_match d' r new
          \<and> new \<in> set (find_for_delete d' r)"
    using nt pr um hm dm del by simp
  have three_u: "\<exists>g. find_for_upload d' r (files d') = Some g \<and> g \<in> set (files d') \<and> upload_match d' r g"
    unfolding find_for_upload_find using find_some [of new "files d'" "?U r"] in_new nt um by auto
  have three_h: "\<exists>g. find_for_helper d' r (files d') = Some g \<and> g \<in> set (files d') \<and> helper_match d' r g"
    unfolding find_for_helper_find using find_some [of new "files d'" "?H r"] in_new nt hm by auto
  have three_d: "\<exists>g. find_for_download d' r (files d') = Some g \<and> g \<in> set (files d') \<and> download_match d' r g"
    unfolding find_for_download_find using find_some [of new "files d'" "?D r"] in_new nt dm by auto
  have three_g: "\<exists>g. get_attachment d' r = Some g \<and> g \<in> set (files d') \<and> prefix (r @ ''_'') g"
    if a: "r \<notin> set (files d) \<and> 36 \<le> length r \<and> CHR ''-'' \<in> set r"
  proof -
    from a have eq: "get_attachment d' r =
        (case filter (?G r) (files d') of [] \<Rightarrow> None | g # rest \<Rightarrow> Some g)"
      using r_ne r_out by (intro get_attachment_by_id) simp_all
    have "new \<in> set (filter (?G r) (files d'))"
      using in_new pr by simp
    then obtain g rest where e: "filter (?G r) (files d') = g # rest"
      by (cases "filter (?G r) (files d')") auto
    then have "g \<in> set (filter (?G r) (files d'))"
      by simp
    then have "g \<in> set (files d') \<and> prefix (r @ ''_'') g"
      by simp
    with eq e show ?thesis
      by simp
  qed
  have four: "find_for_upload d' r (files d') = Some new
             \<and> find_for_helper d' r (files d') = Some new
             \<and> find_for_download d' r (files d') = Some new
             \<and> set (find_for_delete d' r) = {new}
             \<and> (r \<notin> set (files d) \<and> 36 \<le> length r \<and> CHR ''-'' \<in> set r
                  \<longrightarrow> get_attachment d' r = Some new)"
    if only: "\<forall>g\<in>set (files d). g \<noteq> f \<longrightarrow> g \<noteq> new \<longrightarrow> \<not> upload_match d r g \<and> \<not> download_match d r g"
  proof -
    have no: "\<not> upload_match d' r g \<and> \<not> download_match d' r g"
      if g: "g \<in> set (files d')" "g \<noteq> new" for g
    proof -
      from others [OF g] have a: "g \<in> set (files d)" and b: "g \<noteq> f"
        by simp_all
      from only a b g(2) have "\<not> upload_match d r g \<and> \<not> download_match d r g"
        by simp
      then show ?thesis
        using side_other [OF b g(2)] by (simp add: upload_match_def download_match_def)
    qed
    have noU: "\<not> ?U r g" if "g \<in> set (files d')" "g \<noteq> new" for g
      using no [OF that] by simp
    have noH: "\<not> ?H r g" if "g \<in> set (files d')" "g \<noteq> new" for g
      using no [OF that] by (simp add: helper_match_def upload_match_def name_match_def)
    have noD: "\<not> ?D r g" if "g \<in> set (files d')" "g \<noteq> new" for g
      using no [OF that] by simp
    have noG: "\<not> ?G r g" if "g \<in> set (files d')" "g \<noteq> new" for g
      using no [OF that] by (simp add: upload_match_def name_match_def)
    have a: "find_for_upload d' r (files d') = Some new"
      unfolding find_for_upload_find
      by (rule find_only [where P = "?U r", OF in_new]) (use nt um noU in simp_all)
    have b: "find_for_helper d' r (files d') = Some new"
      unfolding find_for_helper_find
      by (rule find_only [where P = "?H r", OF in_new]) (use nt hm noH in simp_all)
    have c: "find_for_download d' r (files d') = Some new"
      unfolding find_for_download_find
      by (rule find_only [where P = "?D r", OF in_new]) (use nt dm noD in simp_all)
    have e: "set (find_for_delete d' r) = {new}"
      unfolding find_for_delete_def
      by (rule filter_only [where P = "?D r", OF in_new]) (use nt dm noD in simp_all)
    have g: "get_attachment d' r = Some new"
      if h: "r \<notin> set (files d) \<and> 36 \<le> length r \<and> CHR ''-'' \<in> set r"
    proof -
      from h have eq: "get_attachment d' r =
          (case filter (?G r) (files d') of [] \<Rightarrow> None | g # rest \<Rightarrow> Some g)"
        using r_ne r_out by (intro get_attachment_by_id) simp_all
      have "\<exists>rest. filter (?G r) (files d') = new # rest"
        by (rule hd_filter_only [where P = "?G r", OF in_new]) (use pr noG in simp_all)
      with eq show ?thesis
        by auto
    qed
    from a b c e g show ?thesis
      by simp
  qed
  have nm: "\<not> name_match u new"
    unfolding name_match_def new
    using local_prefix_gone [OF u ur, of orig] splitext_root_differs [OF u ur, of orig] by simp
  have np: "\<not> prefix (u @ ''_'') new"
    using nm by (simp add: name_match_def)
  have ndm: "\<not> download_match d' u new"
  proof -
    from ur have "r \<noteq> u" by auto
    with nm side show ?thesis
      by (simp add: download_match_def)
  qed
  have nfd: "find_for_download d' u (files d') \<noteq> Some new"
  proof
    assume "find_for_download d' u (files d') = Some new"
    then have "?D u new"
      unfolding find_for_download_find by (rule find_passes [THEN conjunct2])
    with ndm show False by simp
  qed
  have ndel: "new \<notin> set (find_for_delete d' u)"
    using ndm by (simp add: find_for_delete_def)
  have nga: "get_attachment d' u \<noteq> Some new"
  proof
    assume "get_attachment d' u = Some new"
    then have "new = u \<or> prefix (u @ ''_'') new"
      by (rule get_attachment_passes [THEN conjunct2])
    moreover have "new \<noteq> u"
      using u unfolding new by auto
    ultimately show False
      using np by simp
  qed
  have uum: "upload_match d' u new"
    using side id by (simp add: upload_match_def)
  have uhm: "helper_match d' u new"
    using side id by (simp add: helper_match_def)
  have five: "\<not> name_match u new \<and> \<not> download_match d' u new
          \<and> find_for_download d' u (files d') \<noteq> Some new
          \<and> new \<notin> set (find_for_delete d' u)
          \<and> get_attachment d' u \<noteq> Some new
          \<and> upload_match d' u new \<and> helper_match d' u new"
    using nm ndm nfd ndel nga uum uhm by simp
  have three: "(\<exists>g. find_for_upload d' r (files d') = Some g \<and> g \<in> set (files d') \<and> upload_match d' r g)
          \<and> (\<exists>g. find_for_helper d' r (files d') = Some g \<and> g \<in> set (files d') \<and> helper_match d' r g)
          \<and> (\<exists>g. find_for_download d' r (files d') = Some g \<and> g \<in> set (files d') \<and> download_match d' r g)
          \<and> (r \<notin> set (files d) \<and> 36 \<le> length r \<and> CHR ''-'' \<in> set r
               \<longrightarrow> (\<exists>g. get_attachment d' r = Some g \<and> g \<in> set (files d') \<and> prefix (r @ ''_'') g))"
    using three_u three_h three_d three_g by simp
  have four': "(\<forall>g\<in>set (files d). g \<noteq> f \<longrightarrow> g \<noteq> new \<longrightarrow> \<not> upload_match d r g \<and> \<not> download_match d r g)
           \<longrightarrow> find_for_upload d' r (files d') = Some new
             \<and> find_for_helper d' r (files d') = Some new
             \<and> find_for_download d' r (files d') = Some new
             \<and> set (find_for_delete d' r) = {new}
             \<and> (r \<notin> set (files d) \<and> 36 \<le> length r \<and> CHR ''-'' \<in> set r
                  \<longrightarrow> get_attachment d' r = Some new)"
    by (rule impI) (rule four)
  show ?thesis
    by (rule conjI [OF one conjI [OF two conjI [OF three conjI [OF four' five]]]])
qed

theorem C6_promotion_witness:
  "find_for_upload
     (promote_item ''t1''
        \<lparr>files = [''x_b.txt'', ''u1_a.png''],
         sidecars = [''u1_a.png.json'' \<mapsto>
           \<lparr>m_id = ''u1'', m_original_filename = ''a.png'', m_filename = ''u1_a.png'',
            m_title = ''T'', m_description = ''D'', m_content_type = ''image/png'', m_size = 3,
            m_upload_time = ''t0'', m_uploaded_to_api = False, m_synack_id = None,
            m_upload_api_time = None\<rparr>]\<rparr>
        ''9f8b7c6d-1234-4abc-8def-0123456789ab''
        \<lparr>li_id = ''u1'', li_filename = ''u1_a.png'', li_original_filename = ''a.png'',
         li_title = ''T'', li_size = 3, li_metadata_path = Some ''u1_a.png.json'',
         li_file_path = Some ''u1_a.png'', li_content_type = Some ''image/png''\<rparr>
        ''u1_a.png.json'')
     ''9f8b7c6d-1234-4abc-8def-0123456789ab''
     [''x_b.txt'', ''9f8b7c6d-1234-4abc-8def-0123456789ab_a.png'']
     = Some ''9f8b7c6d-1234-4abc-8def-0123456789ab_a.png''
   \<and> get_attachment
     (promote_item ''t1''
        \<lparr>files = [''x_b.txt'', ''u1_a.png''],
         sidecars = [''u1_a.png.json'' \<mapsto>
           \<lparr>m_id = ''u1'', m_original_filename = ''a.png'', m_filename = ''u1_a.png'',
            m_title = ''T'', m_description = ''D'', m_content_type = ''image/png'', m_size = 3,
            m_upload_time = ''t0'', m_uploaded_to_api = False, m_synack_id = None,
            m_upload_api_time = None\<rparr>]\<rparr>
        ''9f8b7c6d-1234-4abc-8def-0123456789ab''
        \<lparr>li_id = ''u1'', li_filename = ''u1_a.png'', li_original_filename = ''a.png'',
         li_title = ''T'', li_size = 3, li_metadata_path = Some ''u1_a.png.json'',
         li_file_path = Some ''u1_a.png'', li_content_type = Some ''image/png''\<rparr>
        ''u1_a.png.json'')
     ''9f8b7c6d-1234-4abc-8def-0123456789ab''
     = Some ''9f8b7c6d-1234-4abc-8def-0123456789ab_a.png''
   \<and> \<not> name_match ''u1'' ''9f8b7c6d-1234-4abc-8def-0123456789ab_a.png''"
proof -
  let ?r = "''9f8b7c6d-1234-4abc-8def-0123456789ab''"
  let ?new = "''9f8b7c6d-1234-4abc-8def-0123456789ab_a.png''"
  let ?md = "\<lparr>m_id = ''u1'', m_original_filename = ''a.png'', m_filename = ''u1_a.png'',
            m_title = ''T'', m_description = ''D'', m_content_type = ''image/png'', m_size = 3,
            m_upload_time = ''t0'', m_uploaded_to_api = False, m_synack_id = None,
            m_upload_api_time = None\<rparr>"
  let ?d = "\<lparr>files = [''x_b.txt'', ''u1_a.png''], sidecars = [''u1_a.png.json'' \<mapsto> ?md]\<rparr>"
  let ?item = "\<lparr>li_id = ''u1'', li_filename = ''u1_a.png'', li_original_filename = ''a.png'',
         li_title = ''T'', li_size = 3, li_metadata_path = Some ''u1_a.png.json'',
         li_file_path = Some ''u1_a.png'', li_content_type = Some ''image/png''\<rparr>"
  let ?d' = "promote_item ''t1'' ?d ?r ?item ''u1_a.png.json''"
  have files: "files ?d' = [''x_b.txt'', ?new]"
    by (simp add: promote_item_def after_underscore_def rename_file_def rename_sidecar_def Let_def)
  have only: "\<forall>g\<in>set (files ?d). g \<noteq> ''u1_a.png'' \<longrightarrow> g \<noteq> ?new
      \<longrightarrow> \<not> upload_match ?d ?r g \<and> \<not> download_match ?d ?r g"
    by (simp add: upload_match_def download_match_def name_match_def splitext_root_def)
  have an_id: "?r \<notin> set (files ?d) \<and> 36 \<le> length ?r \<and> CHR ''-'' \<in> set ?r"
    by simp
  have all: "(?new \<in> set (files ?d') \<and> ''u1_a.png'' \<notin> set (files ?d')
          \<and> sidecars ?d' (''u1_a.png'' @ ''.json'') = None
          \<and> sidecars ?d' (?new @ ''.json'')
              = Some (?md\<lparr>m_synack_id := Some ?r, m_uploaded_to_api := True,
                         m_upload_api_time := Some ''t1'', m_filename := ?new\<rparr>))
       \<and> (\<not> prefix ''temp_'' ?new \<and> prefix (?r @ ''_'') ?new
          \<and> upload_match ?d' ?r ?new \<and> helper_match ?d' ?r ?new \<and> download_match ?d' ?r ?new
          \<and> ?new \<in> set (find_for_delete ?d' ?r))
       \<and> ((\<exists>g. find_for_upload ?d' ?r (files ?d') = Some g \<and> g \<in> set (files ?d') \<and> upload_match ?d' ?r g)
          \<and> (\<exists>g. find_for_helper ?d' ?r (files ?d') = Some g \<and> g \<in> set (files ?d') \<and> helper_match ?d' ?r g)
          \<and> (\<exists>g. find_for_download ?d' ?r (files ?d') = Some g \<and> g \<in> set (files ?d') \<and> download_match ?d' ?r g)
          \<and> (?r \<notin> set (files ?d) \<and> 36 \<le> length ?r \<and> CHR ''-'' \<in> set ?r
               \<longrightarrow> (\<exists>g. get_attachment ?d' ?r = Some g \<and> g \<in> set (files ?d') \<and> prefix (?r @ ''_'') g)))
       \<and> ((\<forall>g\<in>set (files ?d). g \<noteq> ''u1_a.png'' \<longrightarrow> g \<noteq> ?new
              \<longrightarrow> \<not> upload_match ?d ?r g \<and> \<not> download_match ?d ?r g)
           \<longrightarrow> find_for_upload ?d' ?r (files ?d') = Some ?new
             \<and> find_for_helper ?d' ?r (files ?d') = Some ?new
             \<and> find_for_download ?d' ?r (files ?d') = Some ?new
             \<and> set (find_for_delete ?d' ?r) = {?new}
             \<and> (?r \<notin> set (files ?d) \<and> 36 \<le> length ?r \<and> CHR ''-'' \<in> set ?r
                  \<longrightarrow> get_attachment ?d' ?r = Some ?new))
       \<and> (\<not> name_match ''u1'' ?new \<and> \<not> download_match ?d' ''u1'' ?new
          \<and> find_for_download ?d' ''u1'' (files ?d') \<noteq> Some ?new
          \<and> ?new \<notin> set (find_for_delete ?d' ''u1'')
          \<and> get_attachment ?d' ''u1'' \<noteq> Some ?new
          \<and> upload_match ?d' ''u1'' ?new \<and> helper_match ?d' ''u1'' ?new)"
    by (rule C6_promotion [where u = "''u1''" and orig = "''a.png''" and md = ?md and item = ?item])
       simp_all
  from all have four: "(\<forall>g\<in>set (files ?d). g \<noteq> ''u1_a.png'' \<longrightarrow> g \<noteq> ?new
              \<longrightarrow> \<not> upload_match ?d ?r g \<and> \<not> download_match ?d ?r g)
           \<longrightarrow> find_for_upload ?d' ?r (files ?d') = Some ?new
             \<and> find_for_helper ?d' ?r (files ?d') = Some ?new
             \<and> find_for_download ?d' ?r (files ?d') = Some ?new
             \<and> set (find_for_delete ?d' ?r) = {?new}
             \<and> (?r \<notin> set (files ?d) \<and> 36 \<le> length ?r \<and> CHR ''-'' \<in> set ?r
                  \<longrightarrow> get_attachment ?d' ?r = Some ?new)"
    by (rule conjunct2 [THEN conjunct2, THEN conjunct2, THEN conjunct1])
  from four only have a: "find_for_upload ?d' ?r (files ?d') = Some ?new"
    and b: "?r \<notin> set (files ?d) \<and> 36 \<le> length ?r \<and> CHR ''-'' \<in> set ?r
                  \<longrightarrow> get_attachment ?d' ?r = Some ?new"
    by blast+
  from b an_id have c: "get_attachment ?d' ?r = Some ?new"
    by (rule mp)
  from all have e: "\<not> name_match ''u1'' ?new"
    by (rule conjunct2 [THEN conjunct2, THEN conjunct2, THEN conjunct2, THEN conjunct1])
  from a c e show ?thesis
    unfolding files by simp
qed

subsection \<open>The rollback of \<^verbatim>\<open>upload_attachments\<close>\<close>

lemma rollback_result:
  assumes "\<forall>u\<in>set us. li_file_path u \<noteq> None \<and> li_metadata_path u \<noteq> None"
  shows "files (rollback d us) = filter (\<lambda>f. Some f \<notin> li_file_path ` set us) (files d)
       \<and> sidecars (rollback d us)
           = (\<lambda>k. if Some k \<in> li_metadata_path ` set us then None else sidecars d k)"
  using assms
proof (induction us arbitrary: d)
  case Nil
  show ?case by simp
next
  case (Cons u us)
  from Cons.prems obtain fp mp where u: "li_file_path u = Some fp" "li_metadata_path u = Some mp"
    by auto
  let ?d = "(remove_file fp d)\<lparr>sidecars := (sidecars (remove_file fp d))(mp := None)\<rparr>"
  have step: "rollback d (u # us) = rollback ?d us"
    using u by (simp add: Let_def)
  from Cons.prems have "\<forall>u\<in>set us. li_file_path u \<noteq> None \<and> li_metadata_path u \<noteq> None"
    by simp
  from Cons.IH [OF this, of ?d]
  have f: "files (rollback ?d us) = filter (\<lambda>f. Some f \<notin> li_file_path ` set us) (files ?d)"
    and s: "sidecars (rollback ?d us)
           = (\<lambda>k. if Some k \<in> li_metadata_path ` set us then None else sidecars ?d k)"
    by simp_all
  have "files ?d = filter (\<lambda>f. f \<noteq> fp) (files d)"
    by (simp add: remove_file_def removeAll_filter_not_eq) metis
  with f u have "files (rollback ?d us) = filter (\<lambda>f. Some f \<notin> li_file_path ` set (u # us)) (files d)"
    by (auto intro: filter_cong)
  moreover have "sidecars (rollback ?d us)
      = (\<lambda>k. if Some k \<in> li_metadata_path ` set (u # us) then None else sidecars d k)"
    unfolding s using u by (auto simp: remove_file_def fun_eq_iff)
  ultimately show ?case
    unfolding step by simp
qed

lemma save_uploads_shape:
  assumes "save_uploads True e title description i d fs = (d1, items)"
  shows "(\<forall>u\<in>set items. \<exists>j s. li_file_path u = Some (e_uuid4 e j @ ''_'' @ s)
            \<and> li_metadata_path u = Some (e_uuid4 e j @ ''_'' @ s @ ''.json''))
       \<and> (\<exists>extra. files d1 = files d @ extra \<and> (\<forall>x\<in>set extra. Some x \<in> li_file_path ` set items))
       \<and> (\<forall>k. Some k \<notin> li_metadata_path ` set items \<longrightarrow> sidecars d1 k = sidecars d k)"
  using assms
proof (induction fs arbitrary: i d d1 items)
  case Nil
  then show ?case by simp
next
  case (Cons upl rest)
  show ?case
  proof (cases "up_filename upl = []")
    case True
    with Cons.prems have "save_uploads True e title description i d rest = (d1, items)"
      by simp
    then show ?thesis by (rule Cons.IH)
  next
    case False
    let ?n = "e_uuid4 e i @ ''_'' @ e_secure_filename e (up_filename upl)"
    define metadata where "metadata =
       \<lparr>m_id = e_uuid4 e i,
        m_original_filename = e_secure_filename e (up_filename upl),
        m_filename = ?n,
        m_title = (if title \<noteq> [] then title
                   else splitext_root (e_secure_filename e (up_filename upl))),
        m_description = description,
        m_content_type = (case up_content_type upl of
            None \<Rightarrow> ''application/octet-stream''
          | Some t \<Rightarrow> if t = [] then ''application/octet-stream'' else t),
        m_size = up_size upl,
        m_upload_time = e_now e,
        m_uploaded_to_api = False,
        m_synack_id = None,
        m_upload_api_time = None\<rparr>"
    define d2 where "d2 = (save_file ?n d)
       \<lparr>sidecars := (sidecars (save_file ?n d))(?n @ ''.json'' \<mapsto> metadata)\<rparr>"
    define new_item where "new_item =
       \<lparr>li_id = e_uuid4 e i,
        li_filename = ?n,
        li_original_filename = e_secure_filename e (up_filename upl),
        li_title = m_title metadata,
        li_size = m_size metadata,
        li_metadata_path = Some (?n @ ''.json''),
        li_file_path = Some ?n,
        li_content_type = Some (m_content_type metadata)\<rparr>"
    have d2: "files d2 = (if ?n \<in> set (files d) then files d else files d @ [?n])"
      and sc2: "\<forall>k. k \<noteq> ?n @ ''.json'' \<longrightarrow> sidecars d2 k = sidecars d k"
      by (simp_all add: d2_def save_file_def)
    have rec: "save_uploads True e title description i d (upl # rest)
        = (case save_uploads True e title description (i + 1) d2 rest of
             (d', items') \<Rightarrow> (d', new_item # items'))"
      using False by (simp add: Let_def d2_def new_item_def metadata_def)
    obtain d' items' where r: "save_uploads True e title description (i + 1) d2 rest = (d', items')"
      by (cases "save_uploads True e title description (i + 1) d2 rest")
    with rec Cons.prems have "items = new_item # items'" "d1 = d'"
      by simp_all
    then obtain item where it: "items = item # items'" "d1 = d'"
      "li_file_path item = Some ?n" "li_metadata_path item = Some (?n @ ''.json'')"
      by (simp add: new_item_def)
    from Cons.IH [OF r]
    have a: "\<forall>u\<in>set items'. \<exists>j s. li_file_path u = Some (e_uuid4 e j @ ''_'' @ s)
            \<and> li_metadata_path u = Some (e_uuid4 e j @ ''_'' @ s @ ''.json'')"
      and b: "\<exists>extra. files d' = files d2 @ extra \<and> (\<forall>x\<in>set extra. Some x \<in> li_file_path ` set items')"
      and c: "\<forall>k. Some k \<notin> li_metadata_path ` set items' \<longrightarrow> sidecars d' k = sidecars d2 k"
      by simp_all
    have "\<forall>u\<in>set items. \<exists>j s. li_file_path u = Some (e_uuid4 e j @ ''_'' @ s)
            \<and> li_metadata_path u = Some (e_uuid4 e j @ ''_'' @ s @ ''.json'')"
      using a it by auto
    moreover have "\<exists>extra. files d1 = files d @ extra \<and> (\<forall>x\<in>set extra. Some x \<in> li_file_path ` set items)"
    proof -
      from b obtain extra where e: "files d' = files d2 @ extra"
        "\<forall>x\<in>set extra. Some x \<in> li_file_path ` set items'"
        by blast
      show ?thesis
      proof (cases "?n \<in> set (files d)")
        case True
        with d2 e it show ?thesis by auto
      next
        case False
        with d2 e it have "files d1 = files d @ (?n # extra)"
          by simp
        moreover have "\<forall>x\<in>set (?n # extra). Some x \<in> li_file_path ` set items"
          using e(2) it by (auto simp: image_iff)
        ultimately show ?thesis by blast
      qed
    qed
    moreover have "\<forall>k. Some k \<notin> li_metadata_path ` set items \<longrightarrow> sidecars d1 k = sidecars d k"
    proof (intro allI impI)
      fix k
      assume k: "Some k \<notin> li_metadata_path ` set items"
      with it have "k \<noteq> ?n @ ''.json''" and "Some k \<notin> li_metadata_path ` set items'"
        by (auto simp: image_iff)
      with c sc2 it show "sidecars d1 k = sidecars d k"
        by simp
    qed
    ultimately show ?thesis by blast
  qed
qed

text \<open>
  The other endpoint does roll back.  In a directory that holds no file and no sidecar
  under a generated name, whenever the upload helper reports a failure for the stored batch,
  \<^verbatim>\<open>upload_attachments\<close> answers 500 and leaves the files and the sidecars of the directory
  as they were before the request.
\<close>

lemma upload_attachments_rolls_back:
  assumes named: "list_ex (\<lambda>file. up_filename file \<noteq> []) request_files"
    and fresh: "\<forall>j s. e_uuid4 e j @ ''_'' @ s \<notin> set (files d)
                   \<and> sidecars d (e_uuid4 e j @ ''_'' @ s @ ''.json'') = None"
    and saved: "save_uploads True e title description 0 d request_files = (d1, uploaded_files)"
    and failed: "upload_multiple_attachments_to_api e d1 uploaded_files = Inl failure"
    and result: "upload_attachments e title description d request_files = (status_code, d')"
  shows "status_code = 500 \<and> files d' = files d \<and> sidecars d' = sidecars d"
proof -
  from named saved failed result have r: "status_code = 500" "d' = rollback d1 uploaded_files"
    by (simp_all add: upload_attachments_def upload_endpoint_def)
  note shape = save_uploads_shape [OF saved]
  from shape have paths: "\<forall>u\<in>set uploaded_files. li_file_path u \<noteq> None \<and> li_metadata_path u \<noteq> None"
    by fastforce
  note rb = rollback_result [OF paths, of d1]
  from shape obtain extra where e: "files d1 = files d @ extra"
    "\<forall>x\<in>set extra. Some x \<in> li_file_path ` set uploaded_files"
    by blast
  have old: "\<forall>f\<in>set (files d). Some f \<notin> li_file_path ` set uploaded_files"
  proof (intro ballI notI)
    fix f
    assume f: "f \<in> set (files d)" and "Some f \<in> li_file_path ` set uploaded_files"
    then obtain u where "u \<in> set uploaded_files" "li_file_path u = Some f"
      by (auto simp: image_iff)
    with shape obtain j s where "f = e_uuid4 e j @ ''_'' @ s"
      by fastforce
    with fresh f show False by simp
  qed
  have "files (rollback d1 uploaded_files) = files d"
    using rb e old by (simp add: filter_empty_conv)
  moreover have "sidecars (rollback d1 uploaded_files) = sidecars d"
  proof
    fix k
    show "sidecars (rollback d1 uploaded_files) k = sidecars d k"
    proof (cases "Some k \<in> li_metadata_path ` set uploaded_files")
      case True
      then obtain u where "u \<in> set uploaded_files" "li_metadata_path u = Some k"
        by (auto simp: image_iff)
      with shape obtain j s where "k = e_uuid4 e j @ ''_'' @ s @ ''.json''"
        by fastforce
      with fresh have "sidecars d k = None" by simp
      with True rb show ?thesis by simp
    next
      case False
      with shape have "sidecars d1 k = sidecars d k" by blast
      with False rb show ?thesis by simp
    qed
  qed
  ultimately show ?thesis
    using r by simp
qed

section \<open>Template round trip: results\<close>

subsection \<open>Trailing whitespace does not matter\<close>

lemma prefix_before_char:
  assumes "prefix p (s @ c # r)" and "c \<notin> set p"
  shows "prefix p s"
proof -
  from assms(1) consider "prefix p s" | us where "p = s @ us" and "prefix us (c # r)"
    by (auto simp: prefix_append)
  then show ?thesis
  proof cases
    case 1
    then show ?thesis .
  next
    case 2
    with assms(2) show ?thesis
      by (cases us) auto
  qed
qed

lemma prefix_before_chars:
  assumes "prefix p (s @ w)" and "\<forall>c\<in>set w. c \<notin> set p"
  shows "prefix p s"
proof (cases w)
  case Nil
  with assms(1) show ?thesis by simp
next
  case (Cons c r)
  with assms show ?thesis
    using prefix_before_char [of p s c r] by simp
qed

lemma tag_chars_no_space:
  "list_all (\<lambda>n. list_all (\<lambda>c. \<not> is_space c) (tag_text n)) section_names"
  by (simp add: section_names_def tag_text_def is_space_def)

lemma tag_text_no_space:
  "n \<in> set section_names \<Longrightarrow> c \<in> set (tag_text n) \<Longrightarrow> \<not> is_space c"
  using tag_chars_no_space by (simp add: list_all_iff)

lemma match_tag_cong:
  assumes "\<And>n. n \<in> set section_names \<Longrightarrow> prefix (tag_text n) s = prefix (tag_text n) s'"
  shows "match_tag s = match_tag s'"
  unfolding match_tag_def using assms by (intro find_cong) auto

lemma match_tag_space_suffix:
  assumes "\<forall>c\<in>set w. is_space c"
  shows "match_tag (s @ w) = match_tag s"
proof (rule match_tag_cong)
  fix n
  assume n: "n \<in> set section_names"
  have "\<forall>c\<in>set w. c \<notin> set (tag_text n)"
    using assms tag_text_no_space [OF n] by blast
  then show "prefix (tag_text n) (s @ w) = prefix (tag_text n) s"
    using prefix_before_chars [of "tag_text n" s w] by (auto intro: prefix_prefix)
qed

lemma match_tag_newline_suffix:
  "match_tag (s @ CHR ''\<newline>'' # r) = match_tag s"
proof (rule match_tag_cong)
  fix n
  assume n: "n \<in> set section_names"
  have "CHR ''\<newline>'' \<notin> set (tag_text n)"
    using tag_text_no_space [OF n] is_space_newline by blast
  then show "prefix (tag_text n) (s @ CHR ''\<newline>'' # r) = prefix (tag_text n) s"
    using prefix_before_char [of "tag_text n" s "CHR ''\<newline>''" r] by (auto intro: prefix_prefix)
qed

lemma match_tag_space_head: "is_space c \<Longrightarrow> match_tag (c # cs) = None"
proof -
  assume c: "is_space c"
  have "\<not> prefix (tag_text n) (c # cs)" for n
    using c by (auto simp: tag_text_def is_space_def)
  then show ?thesis
    by (simp add: match_tag_def find_None_iff)
qed

lemma skip_to_tag_spaces: "\<forall>c\<in>set w. is_space c \<Longrightarrow> skip_to_tag bol w = []"
  by (induction w arbitrary: bol) (simp_all add: match_tag_space_head)

lemma text_to_tag_spaces: "\<forall>c\<in>set w. is_space c \<Longrightarrow> text_to_tag bol w = w"
  by (rule text_to_tag_no_tag) (rule skip_to_tag_spaces)

lemma skip_to_tag_space_suffix:
  assumes "\<forall>c\<in>set w. is_space c"
  shows "skip_to_tag bol (s @ w) = (if skip_to_tag bol s = [] then [] else skip_to_tag bol s @ w)"
proof (induction s arbitrary: bol)
  case Nil
  show ?case using assms by (simp add: skip_to_tag_spaces)
next
  case (Cons c s)
  have "match_tag (c # s @ w) = match_tag (c # s)"
    using match_tag_space_suffix [OF assms, of "c # s"] by simp
  with Cons show ?case by auto
qed

lemma text_to_tag_space_suffix:
  assumes "\<forall>c\<in>set w. is_space c"
  shows "text_to_tag bol (s @ w) = (if skip_to_tag bol s = [] then text_to_tag bol s @ w else text_to_tag bol s)"
proof (induction s arbitrary: bol)
  case Nil
  show ?case using assms by (simp add: text_to_tag_spaces)
next
  case (Cons c s)
  have "match_tag (c # s @ w) = match_tag (c # s)"
    using match_tag_space_suffix [OF assms, of "c # s"] by simp
  with Cons show ?case by auto
qed

lemma matches_from_space_suffix:
  assumes w: "\<forall>c\<in>set w. is_space c"
  shows "map (apsnd strip) (matches_from (s @ w)) = map (apsnd strip) (matches_from s)"
proof (induction s rule: matches_from.induct)
  case (1 s)
  show ?case
  proof (cases "match_tag s")
    case None
    then have "match_tag (s @ w) = None"
      by (simp add: match_tag_space_suffix [OF w])
    with None show ?thesis
      by (simp add: matches_from_None)
  next
    case (Some n)
    let ?rest = "drop (length (tag_text n)) s"
    have m: "match_tag (s @ w) = Some n"
      using Some by (simp add: match_tag_space_suffix [OF w])
    have d: "drop (length (tag_text n)) (s @ w) = ?rest @ w"
      using match_tag_length [OF Some] by simp
    show ?thesis
    proof (cases "skip_to_tag False ?rest = []")
      case True
      then show ?thesis
        using Some m d w
        by (simp add: matches_from_Some skip_to_tag_space_suffix text_to_tag_space_suffix
            strip_space_suffix)
    next
      case False
      have "map (apsnd strip) (matches_from (skip_to_tag False ?rest @ w))
          = map (apsnd strip) (matches_from (skip_to_tag False ?rest))"
        using "1.IH" [OF Some refl] .
      with False show ?thesis
        using Some m d w
        by (simp add: matches_from_Some skip_to_tag_space_suffix text_to_tag_space_suffix)
    qed
  qed
qed

lemma section_value_strip: "section_value k (strip raw) = section_value k raw"
  by (simp add: section_value_def strip_strip)

lemma store_sections_strip:
  "map (apsnd strip) ms = map (apsnd strip) ms' \<Longrightarrow> store_sections m ms = store_sections m ms'"
proof (induction ms arbitrary: ms' m)
  case Nil
  then show ?case by simp
next
  case (Cons a ms)
  then obtain b ms1 where ms': "ms' = b # ms1" by (cases ms') auto
  obtain n raw where a: "a = (n, raw)" by (cases a)
  obtain n' raw' where b: "b = (n', raw')" by (cases b)
  from Cons.prems ms' a b have eq: "n' = n" "strip raw' = strip raw"
    and rest: "map (apsnd strip) ms = map (apsnd strip) ms1"
    by simp_all
  have "section_value (lower n) raw' = section_value (lower n) raw"
    using section_value_strip [of "lower n" raw] section_value_strip [of "lower n" raw'] eq(2)
    by simp
  then have "store_sections m (a # ms)
      = store_sections (m(lower n \<mapsto> section_value (lower n) raw')) ms"
    using a by simp
  also have "\<dots> = store_sections (m(lower n \<mapsto> section_value (lower n) raw')) ms1"
    by (rule Cons.IH [OF rest])
  also have "\<dots> = store_sections m ms'"
    using ms' b eq(1) by simp
  finally show ?case .
qed

lemma parse_template_space_suffix:
  assumes "\<forall>c\<in>set w. is_space c"
  shows "parse_template (t @ w) = parse_template t"
proof -
  have "finditer (t @ w) = (if skip_to_tag True t = [] then [] else matches_from (skip_to_tag True t @ w))"
    by (simp add: finditer_def skip_to_tag_space_suffix [OF assms] matches_from_None match_tag_Nil)
  also have "map (apsnd strip) \<dots> = map (apsnd strip) (finditer t)"
    by (simp add: finditer_def matches_from_space_suffix [OF assms] matches_from_None match_tag_Nil)
  finally show ?thesis
    unfolding parse_template_def by (rule store_sections_strip)
qed

lemma parse_template_strip:
  assumes "t = [] \<or> \<not> is_space (hd t)"
  shows "parse_template (strip t) = parse_template t"
proof -
  from assms have "dropWhile is_space t = t"
    by (cases t) auto
  then have s: "strip t = rev (dropWhile is_space (rev t))"
    by (simp add: strip_def)
  have "rev t = takeWhile is_space (rev t) @ dropWhile is_space (rev t)"
    by simp
  then have "t = strip t @ rev (takeWhile is_space (rev t))"
    unfolding s by (metis rev_append rev_rev_ident)
  moreover have "\<forall>c\<in>set (rev (takeWhile is_space (rev t))). is_space c"
    by (auto dest: set_takeWhileD)
  ultimately show ?thesis
    using parse_template_space_suffix [of "rev (takeWhile is_space (rev t))" "strip t"] by simp
qed

subsection \<open>The sections of a serialised text\<close>

lemma at_tag_scan: "at_tag s \<Longrightarrow> skip_to_tag True s = s \<and> text_to_tag True s = []"
  by (cases s) (auto simp: at_tag_def)

lemma no_tag_append_newline:
  "skip_to_tag bol c = [] \<Longrightarrow>
   skip_to_tag bol (c @ CHR ''\<newline>'' # r) = skip_to_tag True r
   \<and> text_to_tag bol (c @ CHR ''\<newline>'' # r) = c @ CHR ''\<newline>'' # text_to_tag True r"
proof (induction c arbitrary: bol)
  case Nil
  show ?case
    by (simp add: match_tag_space_head is_space_newline)
next
  case (Cons x c)
  have m: "match_tag (x # c @ CHR ''\<newline>'' # r) = match_tag (x # c)"
    using match_tag_newline_suffix [of "x # c" r] by simp
  from Cons.prems have no: "\<not> (bol \<and> match_tag (x # c) \<noteq> None)"
    and rest: "skip_to_tag (x = CHR ''\<newline>'') c = []"
    by (auto split: if_splits)
  from Cons.IH [OF rest] no m show ?case
    by auto
qed

lemma drop_tag_text: "drop (length (tag_text n)) (tag_text n @ x) = x"
  by simp

lemma matches_from_block:
  assumes n: "n \<in> set section_names" and c: "skip_to_tag True c = []" and r: "at_tag R"
  shows "matches_from (block n c @ R) = (n, CHR ''\<newline>'' # c @ ''\<newline>\<newline>'') # matches_from R"
proof -
  let ?x = "CHR ''\<newline>'' # c @ CHR ''\<newline>'' # CHR ''\<newline>'' # R"
  have b: "block n c @ R = tag_text n @ ?x"
    by (simp add: block_def tag_text_def)
  have m: "match_tag (tag_text n @ ?x) = Some n"
    using n by (rule match_tag_tag_text)
  have nl: "skip_to_tag True (CHR ''\<newline>'' # R) = R \<and> text_to_tag True (CHR ''\<newline>'' # R) = ''\<newline>''"
    using at_tag_scan [OF r] by (simp add: match_tag_space_head is_space_newline)
  have "skip_to_tag False ?x = skip_to_tag True (c @ CHR ''\<newline>'' # CHR ''\<newline>'' # R)"
    and "text_to_tag False ?x = CHR ''\<newline>'' # text_to_tag True (c @ CHR ''\<newline>'' # CHR ''\<newline>'' # R)"
    by simp_all
  with no_tag_append_newline [OF c, of "CHR ''\<newline>'' # R"] nl
  have "skip_to_tag False ?x = R" and "text_to_tag False ?x = CHR ''\<newline>'' # c @ ''\<newline>\<newline>''"
    by simp_all
  with matches_from_Some [OF m] show ?thesis
    unfolding b drop_tag_text by simp
qed

lemma at_tag_block: "n \<in> set section_names \<Longrightarrow> at_tag (block n c @ R)"
proof -
  assume n: "n \<in> set section_names"
  have "block n c @ R = tag_text n @ (CHR ''\<newline>'' # c @ ''\<newline>\<newline>'' @ R)"
    by (simp add: block_def tag_text_def)
  with match_tag_tag_text [OF n] show ?thesis
    by (simp add: at_tag_def)
qed

lemma matches_from_scripts_block:
  assumes "ls \<noteq> []" and j: "skip_to_tag True (join_nl ls) = []"
  shows "matches_from (scripts_block ls) = [(''Scripts'', CHR ''\<newline>'' # join_nl ls @ ''\<newline>'')]"
    and "at_tag (scripts_block ls)"
proof -
  let ?x = "CHR ''\<newline>'' # join_nl ls @ CHR ''\<newline>'' # []"
  have n: "''Scripts'' \<in> set section_names"
    by (simp add: section_names_def)
  have b: "scripts_block ls = tag_text ''Scripts'' @ ?x"
    using assms(1) by (simp add: scripts_block_def tag_text_def)
  have m: "match_tag (tag_text ''Scripts'' @ ?x) = Some ''Scripts''"
    using n by (rule match_tag_tag_text)
  then show "at_tag (scripts_block ls)"
    unfolding b by (simp add: at_tag_def)
  have "skip_to_tag False ?x = skip_to_tag True (join_nl ls @ CHR ''\<newline>'' # [])"
    and "text_to_tag False ?x = CHR ''\<newline>'' # text_to_tag True (join_nl ls @ CHR ''\<newline>'' # [])"
    by simp_all
  with no_tag_append_newline [OF j, of "[]"]
  have "skip_to_tag False ?x = []" and "text_to_tag False ?x = CHR ''\<newline>'' # join_nl ls @ ''\<newline>''"
    by simp_all
  with matches_from_Some [OF m] show "matches_from (scripts_block ls) = [(''Scripts'', CHR ''\<newline>'' # join_nl ls @ ''\<newline>'')]"
    unfolding b drop_tag_text by (simp add: matches_from_None match_tag_Nil)
qed

lemma at_tag_scripts_block: "skip_to_tag True (join_nl ls) = [] \<Longrightarrow> at_tag (scripts_block ls)"
  using matches_from_scripts_block(2) [of ls] by (cases "ls = []") (simp_all add: scripts_block_def at_tag_def)

lemma text_keys_in_section_names: "set text_keys \<subseteq> set section_names"
  by (simp add: text_keys_def section_names_def)

text \<open>The matches of the text that \<open>serialize\<close> strips, for contents without a tag at the
  start of a line.\<close>

lemma finditer_blocks:
  assumes c: "skip_to_tag True c1 = []" "skip_to_tag True c2 = []" "skip_to_tag True c3 = []"
      "skip_to_tag True c4 = []" "skip_to_tag True c5 = []"
    and j: "skip_to_tag True (join_nl ls) = []"
  shows "finditer (block ''Introduction'' c1 @ block ''Testing'' c2 @ block ''Documentation'' c3
           @ block ''conclusion-pass'' c4 @ block ''conclusion-fail'' c5 @ scripts_block ls)
     = [(''Introduction'', CHR ''\<newline>'' # c1 @ ''\<newline>\<newline>''),
        (''Testing'', CHR ''\<newline>'' # c2 @ ''\<newline>\<newline>''),
        (''Documentation'', CHR ''\<newline>'' # c3 @ ''\<newline>\<newline>''),
        (''conclusion-pass'', CHR ''\<newline>'' # c4 @ ''\<newline>\<newline>''),
        (''conclusion-fail'', CHR ''\<newline>'' # c5 @ ''\<newline>\<newline>'')]
       @ (if ls = [] then [] else [(''Scripts'', CHR ''\<newline>'' # join_nl ls @ ''\<newline>'')])"
proof -
  let ?S = "scripts_block ls"
  let ?B5 = "block ''conclusion-fail'' c5 @ ?S"
  let ?B4 = "block ''conclusion-pass'' c4 @ ?B5"
  let ?B3 = "block ''Documentation'' c3 @ ?B4"
  let ?B2 = "block ''Testing'' c2 @ ?B3"
  let ?B1 = "block ''Introduction'' c1 @ ?B2"
  have names: "''Introduction'' \<in> set section_names" "''Testing'' \<in> set section_names"
    "''Documentation'' \<in> set section_names" "''conclusion-pass'' \<in> set section_names"
    "''conclusion-fail'' \<in> set section_names"
    by (simp_all add: section_names_def)
  have s: "at_tag ?S"
    using j by (rule at_tag_scripts_block)
  have ms: "matches_from ?S = (if ls = [] then [] else [(''Scripts'', CHR ''\<newline>'' # join_nl ls @ ''\<newline>'')])"
    using matches_from_scripts_block(1) [OF _ j]
    by (simp add: scripts_block_def matches_from_None match_tag_Nil)
  have m5: "matches_from ?B5 = (''conclusion-fail'', CHR ''\<newline>'' # c5 @ ''\<newline>\<newline>'') # matches_from ?S"
    using names(5) c(5) s by (rule matches_from_block)
  have m4: "matches_from ?B4 = (''conclusion-pass'', CHR ''\<newline>'' # c4 @ ''\<newline>\<newline>'') # matches_from ?B5"
    using names(4) c(4) at_tag_block [OF names(5)] by (rule matches_from_block)
  have m3: "matches_from ?B3 = (''Documentation'', CHR ''\<newline>'' # c3 @ ''\<newline>\<newline>'') # matches_from ?B4"
    using names(3) c(3) at_tag_block [OF names(4)] by (rule matches_from_block)
  have m2: "matches_from ?B2 = (''Testing'', CHR ''\<newline>'' # c2 @ ''\<newline>\<newline>'') # matches_from ?B3"
    using names(2) c(2) at_tag_block [OF names(3)] by (rule matches_from_block)
  have m1: "matches_from ?B1 = (''Introduction'', CHR ''\<newline>'' # c1 @ ''\<newline>\<newline>'') # matches_from ?B2"
    using names(1) c(1) at_tag_block [OF names(2)] by (rule matches_from_block)
  have "finditer ?B1 = matches_from ?B1"
    using at_tag_scan [OF at_tag_block [OF names(1)], of c1 ?B2] by (simp add: finditer_def)
  then show ?thesis
    by (simp only: m1 m2 m3 m4 m5 ms append_Cons append_Nil)
qed

subsection \<open>The lines of the scripts\<close>

lemma join_nl_Cons: "ls \<noteq> [] \<Longrightarrow> join_nl (l # ls) = l @ CHR ''\<newline>'' # join_nl ls"
  by (cases ls) simp_all

lemma join_nl_snoc: "xs \<noteq> [] \<Longrightarrow> join_nl (xs @ [y]) = join_nl xs @ CHR ''\<newline>'' # y"
proof (induction xs)
  case Nil
  then show ?case by simp
next
  case (Cons x xs)
  show ?case
  proof (cases "xs = []")
    case True
    then show ?thesis by simp
  next
    case False
    with Cons.IH show ?thesis
      by (simp add: join_nl_Cons)
  qed
qed

lemma rev_join_nl: "rev (join_nl ls) = join_nl (rev (map rev ls))"
proof (induction ls)
  case Nil
  show ?case by simp
next
  case (Cons l ls)
  show ?case
  proof (cases "ls = []")
    case True
    then show ?thesis by simp
  next
    case False
    with Cons.IH show ?thesis
      by (simp add: join_nl_Cons join_nl_snoc)
  qed
qed

lemma hd_join_nl: "xs \<noteq> [] \<Longrightarrow> hd xs \<noteq> [] \<Longrightarrow> hd (join_nl xs) = hd (hd xs)"
  by (cases xs; cases "tl xs") (auto simp: join_nl_Cons)

lemma join_nl_nonempty: "xs \<noteq> [] \<Longrightarrow> hd xs \<noteq> [] \<Longrightarrow> join_nl xs \<noteq> []"
  by (cases xs; cases "tl xs") (auto simp: join_nl_Cons)

lemma nonempty_lines_rev_map: "nonempty_lines (rev (map rev ls)) = rev (map rev (nonempty_lines ls))"
  by (simp add: nonempty_lines_def filter_map comp_def flip: rev_filter rev_map)

lemma nonempty_lines_dropWhile: "nonempty_lines (dropWhile (\<lambda>l. l = []) ls) = nonempty_lines ls"
  by (induction ls) (simp_all add: nonempty_lines_def)

lemma nonempty_lines_rev: "nonempty_lines (rev ls) = rev (nonempty_lines ls)"
  by (simp add: nonempty_lines_def rev_filter)

lemma dropWhile_empty_map_rev:
  "dropWhile (\<lambda>l. l = []) (map rev xs) = map rev (dropWhile (\<lambda>l. l = []) xs)"
  by (induction xs) simp_all

lemma lstrip_join_nl:
  "nonempty_lines ls = [] \<or> \<not> is_space (hd (hd (nonempty_lines ls))) \<Longrightarrow>
   dropWhile is_space (join_nl ls) = join_nl (dropWhile (\<lambda>l. l = []) ls)"
proof (induction ls)
  case Nil
  show ?case by simp
next
  case (Cons l ls)
  show ?case
  proof (cases "l = []")
    case True
    with Cons.prems have "nonempty_lines ls = [] \<or> \<not> is_space (hd (hd (nonempty_lines ls)))"
      by (simp add: nonempty_lines_def)
    from Cons.IH [OF this] True show ?thesis
      by (cases "ls = []") (simp_all add: join_nl_Cons is_space_newline)
  next
    case False
    with Cons.prems have h: "\<not> is_space (hd l)"
      by (simp add: nonempty_lines_def)
    from False obtain x xs where l: "l = x # xs" by (cases l) auto
    with h False show ?thesis
      by (cases "ls = []") (simp_all add: join_nl_Cons)
  qed
qed

lemma rstrip_join_nl:
  assumes "nonempty_lines ls = [] \<or> \<not> is_space (last (last (nonempty_lines ls)))"
  shows "rev (dropWhile is_space (rev (join_nl ls))) = join_nl (rev (dropWhile (\<lambda>l. l = []) (rev ls)))"
proof -
  let ?ls' = "rev (map rev ls)"
  have "nonempty_lines ?ls' = [] \<or> \<not> is_space (hd (hd (nonempty_lines ?ls')))"
  proof (cases "nonempty_lines ls = []")
    case True
    then show ?thesis by (simp add: nonempty_lines_rev_map)
  next
    case False
    then have "last (nonempty_lines ls) \<in> set (nonempty_lines ls)"
      by simp
    then have ne: "last (nonempty_lines ls) \<noteq> []"
      by (simp add: nonempty_lines_def)
    have "hd (hd (nonempty_lines ?ls')) = hd (rev (last (nonempty_lines ls)))"
      using False by (simp add: nonempty_lines_rev_map hd_rev last_map)
    also have "\<dots> = last (last (nonempty_lines ls))"
      using ne by (simp add: hd_rev)
    finally show ?thesis
      using assms False by simp
  qed
  then have "dropWhile is_space (join_nl ?ls') = join_nl (dropWhile (\<lambda>l. l = []) ?ls')"
    by (rule lstrip_join_nl)
  moreover have "dropWhile (\<lambda>l. l = []) ?ls' = map rev (dropWhile (\<lambda>l. l = []) (rev ls))"
    unfolding rev_map by (rule dropWhile_empty_map_rev)
  ultimately have "dropWhile is_space (rev (join_nl ls))
      = join_nl (map rev (dropWhile (\<lambda>l. l = []) (rev ls)))"
    by (simp add: rev_join_nl)
  then have "rev (dropWhile is_space (rev (join_nl ls)))
      = rev (join_nl (map rev (dropWhile (\<lambda>l. l = []) (rev ls))))"
    by simp
  also have "\<dots> = join_nl (rev (dropWhile (\<lambda>l. l = []) (rev ls)))"
    by (simp add: rev_join_nl rev_map comp_def)
  finally show ?thesis .
qed

lemma nonempty_core_lines: "nonempty_lines (core_lines ls) = nonempty_lines ls"
  by (simp add: core_lines_def nonempty_lines_rev nonempty_lines_dropWhile)

lemma set_core_lines: "set (core_lines ls) \<subseteq> set ls"
  by (auto simp: core_lines_def dest!: set_dropWhileD)

lemma trimmed_joined_lines:
  assumes "trimmed (join_nl (nonempty_lines ls))"
  shows "nonempty_lines ls = [] \<or> \<not> is_space (hd (hd (nonempty_lines ls)))"
    and "nonempty_lines ls = [] \<or> \<not> is_space (last (last (nonempty_lines ls)))"
proof -
  let ?ne = "nonempty_lines ls"
  have all: "\<forall>l\<in>set ?ne. l \<noteq> []"
    by (simp add: nonempty_lines_def)
  show "?ne = [] \<or> \<not> is_space (hd (hd ?ne))"
  proof (cases "?ne = []")
    case True
    then show ?thesis ..
  next
    case False
    with all have h: "hd ?ne \<noteq> []" by simp
    from assms join_nl_nonempty [OF False h] have "\<not> is_space (hd (join_nl ?ne))"
      by (simp add: trimmed_def)
    with hd_join_nl [OF False h] show ?thesis by simp
  qed
  show "?ne = [] \<or> \<not> is_space (last (last ?ne))"
  proof (cases "?ne = []")
    case True
    then show ?thesis ..
  next
    case False
    with all have h: "hd ?ne \<noteq> []" and l: "last ?ne \<noteq> []" by simp_all
    let ?r = "rev (map rev ?ne)"
    have r: "?r \<noteq> []" "hd ?r \<noteq> []"
      using False l by (simp_all add: hd_rev last_map)
    from assms join_nl_nonempty [OF False h] have "\<not> is_space (last (join_nl ?ne))"
      by (simp add: trimmed_def)
    moreover have "last (join_nl ?ne) = hd (rev (join_nl ?ne))"
      using join_nl_nonempty [OF False h] by (simp add: hd_rev)
    moreover have "\<dots> = hd (hd ?r)"
      unfolding rev_join_nl using r by (rule hd_join_nl)
    moreover have "\<dots> = last (last ?ne)"
      using False l by (simp add: hd_rev last_map)
    ultimately show ?thesis by simp
  qed
qed

lemma strip_join_nl:
  assumes "trimmed (join_nl (nonempty_lines ls))"
  shows "strip (join_nl ls) = join_nl (core_lines ls)"
proof -
  note ok = trimmed_joined_lines [OF assms]
  have "dropWhile is_space (join_nl ls) = join_nl (dropWhile (\<lambda>l. l = []) ls)"
    using ok(1) by (rule lstrip_join_nl)
  moreover have "rev (dropWhile is_space (rev (join_nl (dropWhile (\<lambda>l. l = []) ls))))
      = join_nl (rev (dropWhile (\<lambda>l. l = []) (rev (dropWhile (\<lambda>l. l = []) ls))))"
    using ok(2) by (intro rstrip_join_nl) (simp add: nonempty_lines_dropWhile)
  ultimately show ?thesis
    by (simp add: strip_def core_lines_def)
qed

lemma split_nl_line:
  "CHR ''\<newline>'' \<notin> set l \<Longrightarrow> split_nl l = [l] \<and> split_nl (l @ CHR ''\<newline>'' # r) = l # split_nl r"
  by (induction l) auto

lemma split_nl_join_nl:
  "\<forall>l\<in>set xs. CHR ''\<newline>'' \<notin> set l \<Longrightarrow> xs \<noteq> [] \<Longrightarrow> split_nl (join_nl xs) = xs"
proof (induction xs)
  case Nil
  then show ?case by simp
next
  case (Cons x xs)
  show ?case
  proof (cases "xs = []")
    case True
    with Cons.prems show ?thesis by (simp add: split_nl_line)
  next
    case False
    with Cons show ?thesis
      by (simp add: join_nl_Cons split_nl_line)
  qed
qed

lemma nonempty_lines_split_join:
  assumes "\<forall>l\<in>set xs. CHR ''\<newline>'' \<notin> set l"
  shows "nonempty_lines (split_nl (join_nl xs)) = nonempty_lines xs"
proof (cases "xs = []")
  case True
  then show ?thesis by (simp add: nonempty_lines_def)
next
  case False
  with assms show ?thesis
    by (simp add: split_nl_join_nl)
qed

lemma scripts_round_trip:
  assumes nl: "\<forall>l\<in>set ls. CHR ''\<newline>'' \<notin> set l"
    and tr: "trimmed (join_nl (nonempty_lines ls))"
  shows "section_value ''scripts'' (CHR ''\<newline>'' # join_nl ls @ ''\<newline>'') = Lines parsed
         \<Longrightarrow> nonempty_lines parsed = nonempty_lines ls"
proof -
  let ?c = "strip (CHR ''\<newline>'' # join_nl ls @ ''\<newline>'')"
  assume "section_value ''scripts'' (CHR ''\<newline>'' # join_nl ls @ ''\<newline>'') = Lines parsed"
  then have p: "parsed = (if ?c \<noteq> [] then split_nl ?c else [])"
    by (simp add: section_value_def Let_def)
  have "?c = strip ([CHR ''\<newline>''] @ (join_nl ls @ [CHR ''\<newline>'']))"
    by simp
  also have "\<dots> = strip (join_nl ls @ [CHR ''\<newline>''])"
    by (rule strip_space_prefix) (simp add: is_space_newline)
  also have "\<dots> = strip (join_nl ls)"
    by (rule strip_space_suffix) (simp add: is_space_newline)
  also have "\<dots> = join_nl (core_lines ls)"
    using tr by (rule strip_join_nl)
  finally have c: "?c = join_nl (core_lines ls)" .
  have "nonempty_lines parsed = nonempty_lines (split_nl ?c)"
    unfolding p by (simp add: nonempty_lines_def)
  also have "\<dots> = nonempty_lines (core_lines ls)"
    unfolding c using nl set_core_lines [of ls] by (intro nonempty_lines_split_join) auto
  also have "\<dots> = nonempty_lines ls"
    by (rule nonempty_core_lines)
  finally show ?thesis .
qed

subsection \<open>Parsing a serialised map\<close>

lemma strip_block: "strip c = c \<Longrightarrow> strip (CHR ''\<newline>'' # c @ ''\<newline>\<newline>'') = c"
proof -
  assume c: "strip c = c"
  have "strip (CHR ''\<newline>'' # c @ ''\<newline>\<newline>'') = strip ([CHR ''\<newline>''] @ (c @ ''\<newline>\<newline>''))"
    by simp
  also have "\<dots> = strip (c @ ''\<newline>\<newline>'')"
    by (rule strip_space_prefix) (simp add: is_space_newline)
  also have "\<dots> = strip c"
    by (rule strip_space_suffix) (simp add: is_space_newline)
  finally show ?thesis
    using c by simp
qed

lemma parse_serialize:
  "parse_template (serialize m) = parse_template (template_content m)"
  unfolding serialize_def
  by (rule parse_template_strip)
     (simp add: template_content_blocks block_def is_space_def)

lemma parse_serialize_lookup:
  assumes "no_tag (get_text m ''introduction'')" and "no_tag (get_text m ''testing'')"
    and "no_tag (get_text m ''documentation'')" and "no_tag (get_text m ''conclusion-pass'')"
    and "no_tag (get_text m ''conclusion-fail'')" and "no_tag (join_nl (get_scripts m))"
  shows "parse_template (serialize m) ''introduction''
           = Some (Text (strip (CHR ''\<newline>'' # get_text m ''introduction'' @ ''\<newline>\<newline>'')))"
    and "parse_template (serialize m) ''testing''
           = Some (Text (strip (CHR ''\<newline>'' # get_text m ''testing'' @ ''\<newline>\<newline>'')))"
    and "parse_template (serialize m) ''documentation''
           = Some (Text (strip (CHR ''\<newline>'' # get_text m ''documentation'' @ ''\<newline>\<newline>'')))"
    and "parse_template (serialize m) ''conclusion-pass''
           = Some (Text (strip (CHR ''\<newline>'' # get_text m ''conclusion-pass'' @ ''\<newline>\<newline>'')))"
    and "parse_template (serialize m) ''conclusion-fail''
           = Some (Text (strip (CHR ''\<newline>'' # get_text m ''conclusion-fail'' @ ''\<newline>\<newline>'')))"
    and "parse_template (serialize m) ''scripts''
           = (if get_scripts m = [] then None
              else Some (section_value ''scripts'' (CHR ''\<newline>'' # join_nl (get_scripts m) @ ''\<newline>'')))"
proof -
  have names: "lower ''Introduction'' = ''introduction''" "lower ''Testing'' = ''testing''"
    "lower ''Documentation'' = ''documentation''" "lower ''conclusion-pass'' = ''conclusion-pass''"
    "lower ''conclusion-fail'' = ''conclusion-fail''" "lower ''Scripts'' = ''scripts''"
    by (simp_all add: lower_def is_upper_def)
  note fi = finditer_blocks [OF assms [unfolded no_tag_def]]
  have p: "parse_template (serialize m) = store_sections Map.empty
     ([(''Introduction'', CHR ''\<newline>'' # get_text m ''introduction'' @ ''\<newline>\<newline>''),
        (''Testing'', CHR ''\<newline>'' # get_text m ''testing'' @ ''\<newline>\<newline>''),
        (''Documentation'', CHR ''\<newline>'' # get_text m ''documentation'' @ ''\<newline>\<newline>''),
        (''conclusion-pass'', CHR ''\<newline>'' # get_text m ''conclusion-pass'' @ ''\<newline>\<newline>''),
        (''conclusion-fail'', CHR ''\<newline>'' # get_text m ''conclusion-fail'' @ ''\<newline>\<newline>'')]
       @ (if get_scripts m = [] then []
          else [(''Scripts'', CHR ''\<newline>'' # join_nl (get_scripts m) @ ''\<newline>'')]))"
    unfolding parse_serialize
    by (simp only: parse_template_def template_content_blocks fi)
  show "parse_template (serialize m) ''introduction''
           = Some (Text (strip (CHR ''\<newline>'' # get_text m ''introduction'' @ ''\<newline>\<newline>'')))"
    unfolding p by (simp add: names section_value_def)
  show "parse_template (serialize m) ''testing''
           = Some (Text (strip (CHR ''\<newline>'' # get_text m ''testing'' @ ''\<newline>\<newline>'')))"
    unfolding p by (simp add: names section_value_def)
  show "parse_template (serialize m) ''documentation''
           = Some (Text (strip (CHR ''\<newline>'' # get_text m ''documentation'' @ ''\<newline>\<newline>'')))"
    unfolding p by (simp add: names section_value_def)
  show "parse_template (serialize m) ''conclusion-pass''
           = Some (Text (strip (CHR ''\<newline>'' # get_text m ''conclusion-pass'' @ ''\<newline>\<newline>'')))"
    unfolding p by (simp add: names section_value_def)
  show "parse_template (serialize m) ''conclusion-fail''
           = Some (Text (strip (CHR ''\<newline>'' # get_text m ''conclusion-fail'' @ ''\<newline>\<newline>'')))"
    unfolding p by (simp add: names section_value_def)
  show "parse_template (serialize m) ''scripts''
           = (if get_scripts m = [] then None
              else Some (section_value ''scripts'' (CHR ''\<newline>'' # join_nl (get_scripts m) @ ''\<newline>'')))"
    unfolding p by (simp add: names)
qed

text \<open>
  C1 as stated fails, in both of its forms.  A content with a blank at its start comes back
  without it; a content with a tag at the start of one of its lines comes back cut at that
  line; a script line with a blank at its start comes back without it; and for the text
  \<^verbatim>\<open>[Introduction][Testing]\<close> followed by a line \<^verbatim>\<open>foo\<close>, whose introduction is the rest
  of the text, parsing the serialised parse gives an empty introduction.
\<close>

theorem C1_round_trip_counterexample:
  "parse_template (serialize [''introduction'' \<mapsto> Text '' a'']) ''introduction'' = Some (Text ''a'')
   \<and> parse_template (serialize [''introduction'' \<mapsto> Text (''x'' @ ''\<newline>'' @ ''[Testing]'' @ ''\<newline>'' @ ''y'')])
        ''introduction'' = Some (Text ''x'')
   \<and> parse_template (serialize [''scripts'' \<mapsto> Lines ['' a'']]) ''scripts'' = Some (Lines [''a''])
   \<and> parse_template (''[Introduction][Testing]'' @ ''\<newline>'' @ ''foo'') ''introduction''
        = Some (Text (''[Testing]'' @ ''\<newline>'' @ ''foo''))
   \<and> parse_template (serialize (parse_template (''[Introduction][Testing]'' @ ''\<newline>'' @ ''foo'')))
        ''introduction'' = Some (Text [])"
proof -
  have ev: "parse_template (''[Introduction][Testing]'' @ ''\<newline>'' @ ''foo'')
      = [''introduction'' \<mapsto> Text (''[Testing]'' @ ''\<newline>'' @ ''foo'')]"
    by (simp add: parse_template_def finditer_def match_tag_def section_names_def tag_text_def
        section_value_def strip_def is_space_def is_upper_def lower_def matches_from.simps)
  have 1: "parse_template (serialize [''introduction'' \<mapsto> Text '' a'']) ''introduction'' = Some (Text ''a'')"
    unfolding parse_serialize
    by (simp add: template_content_blocks get_text_def get_scripts_def block_def
        scripts_block_def parse_template_def finditer_def match_tag_def section_names_def tag_text_def
        section_value_def strip_def is_space_def is_upper_def lower_def matches_from.simps)
  have 2: "parse_template (serialize [''introduction'' \<mapsto> Text (''x'' @ ''\<newline>'' @ ''[Testing]'' @ ''\<newline>'' @ ''y'')])
        ''introduction'' = Some (Text ''x'')"
    unfolding parse_serialize
    by (simp add: template_content_blocks get_text_def get_scripts_def block_def
        scripts_block_def parse_template_def finditer_def match_tag_def section_names_def tag_text_def
        section_value_def strip_def is_space_def is_upper_def lower_def matches_from.simps)
  have 3: "parse_template (serialize [''scripts'' \<mapsto> Lines ['' a'']]) ''scripts'' = Some (Lines [''a''])"
    unfolding parse_serialize
    by (simp add: template_content_blocks get_text_def get_scripts_def block_def
        scripts_block_def parse_template_def finditer_def match_tag_def section_names_def tag_text_def
        section_value_def strip_def is_space_def is_upper_def lower_def matches_from.simps)
  have 4: "parse_template (serialize [''introduction'' \<mapsto> Text (''[Testing]'' @ ''\<newline>'' @ ''foo'')])
        ''introduction'' = Some (Text [])"
    unfolding parse_serialize
    by (simp add: template_content_blocks get_text_def get_scripts_def block_def
        scripts_block_def parse_template_def finditer_def match_tag_def section_names_def tag_text_def
        section_value_def strip_def is_space_def is_upper_def lower_def matches_from.simps)
  from 1 2 3 4 show ?thesis
    unfolding ev by simp
qed

text \<open>
  C1, amended.  Let a section map use only the six keys, with a string under each text key
  it has and a list of strings under \<open>scripts\<close>, such that every string is trimmed and has
  no recognised tag at the start of a line, no script contains a newline, the scripts joined
  by newlines have no recognised tag at the start of a line, and the non-empty scripts joined
  by newlines form a trimmed text.  Then parsing the serialised map gives back, under every
  text key of the map, the value of the map, and the non-empty lines of the parsed scripts
  are the non-empty scripts of the map.
\<close>

theorem C1_round_trip:
  assumes keys: "dom m \<subseteq> set (map lower text_keys) \<union> {''scripts''}"
    and texts: "\<forall>k\<in>set (map lower text_keys). \<forall>v. m k = Some v \<longrightarrow>
                  (\<exists>c. v = Text c \<and> strip c = c \<and> no_tag c)"
    and scripts: "\<forall>v. m ''scripts'' = Some v \<longrightarrow>
                  (\<exists>ls. v = Lines ls \<and> (\<forall>l\<in>set ls. CHR ''\<newline>'' \<notin> set l)
                     \<and> no_tag (join_nl ls) \<and> trimmed (join_nl (nonempty_lines ls)))"
  shows "(\<forall>k\<in>dom m. k \<noteq> ''scripts'' \<longrightarrow> parse_template (serialize m) k = m k)
       \<and> nonempty_lines (get_scripts (parse_template (serialize m))) = nonempty_lines (get_scripts m)"
proof -
  have text_ok: "strip (get_text m k) = get_text m k \<and> no_tag (get_text m k)
      \<and> (m k \<noteq> None \<longrightarrow> m k = Some (Text (get_text m k)))"
    if "k \<in> set (map lower text_keys)" for k
  proof (cases "m k")
    case None
    then show ?thesis
      by (simp add: get_text_def no_tag_def strip_def)
  next
    case (Some v)
    with texts that obtain c where "v = Text c" "strip c = c" "no_tag c"
      by blast
    with Some show ?thesis
      by (simp add: get_text_def)
  qed
  have in_keys: "''introduction'' \<in> set (map lower text_keys)" "''testing'' \<in> set (map lower text_keys)"
    "''documentation'' \<in> set (map lower text_keys)" "''conclusion-pass'' \<in> set (map lower text_keys)"
    "''conclusion-fail'' \<in> set (map lower text_keys)"
    unfolding lower_text_keys by simp_all
  have scripts_ok: "(\<forall>l\<in>set (get_scripts m). CHR ''\<newline>'' \<notin> set l)
      \<and> no_tag (join_nl (get_scripts m)) \<and> trimmed (join_nl (nonempty_lines (get_scripts m)))"
  proof (cases "m ''scripts''")
    case None
    then show ?thesis
      by (simp add: get_scripts_def no_tag_def trimmed_def nonempty_lines_def)
  next
    case (Some v)
    with scripts obtain ls where "v = Lines ls" "\<forall>l\<in>set ls. CHR ''\<newline>'' \<notin> set l"
      "no_tag (join_nl ls)" "trimmed (join_nl (nonempty_lines ls))"
      by blast
    with Some show ?thesis
      by (simp add: get_scripts_def)
  qed
  note oks = text_ok [OF in_keys(1)] text_ok [OF in_keys(2)] text_ok [OF in_keys(3)]
    text_ok [OF in_keys(4)] text_ok [OF in_keys(5)] scripts_ok
  note look = parse_serialize_lookup [of m]
  have l: "parse_template (serialize m) k = Some (Text (get_text m k))"
    if "k \<in> set (map lower text_keys)" for k
  proof -
    from that have "k = ''introduction'' \<or> k = ''testing'' \<or> k = ''documentation''
      \<or> k = ''conclusion-pass'' \<or> k = ''conclusion-fail''"
      unfolding lower_text_keys by simp
    then show ?thesis
    proof (elim disjE)
      assume "k = ''introduction''"
      with look(1) oks show ?thesis by (simp add: strip_block)
    next
      assume "k = ''testing''"
      with look(2) oks show ?thesis by (simp add: strip_block)
    next
      assume "k = ''documentation''"
      with look(3) oks show ?thesis by (simp add: strip_block)
    next
      assume "k = ''conclusion-pass''"
      with look(4) oks show ?thesis by (simp add: strip_block)
    next
      assume "k = ''conclusion-fail''"
      with look(5) oks show ?thesis by (simp add: strip_block)
    qed
  qed
  have first: "\<forall>k\<in>dom m. k \<noteq> ''scripts'' \<longrightarrow> parse_template (serialize m) k = m k"
  proof (intro ballI impI)
    fix k
    assume "k \<in> dom m" and "k \<noteq> ''scripts''"
    with keys have k: "k \<in> set (map lower text_keys)" and "m k \<noteq> None"
      by auto
    with text_ok [OF k] l [OF k] show "parse_template (serialize m) k = m k"
      by simp
  qed
  have sc: "parse_template (serialize m) ''scripts''
           = (if get_scripts m = [] then None
              else Some (section_value ''scripts'' (CHR ''\<newline>'' # join_nl (get_scripts m) @ ''\<newline>'')))"
    using look(6) oks by simp
  have second: "nonempty_lines (get_scripts (parse_template (serialize m))) = nonempty_lines (get_scripts m)"
  proof (cases "get_scripts m = []")
    case True
    with sc show ?thesis
      by (simp add: get_scripts_def)
  next
    case False
    obtain parsed where v: "section_value ''scripts'' (CHR ''\<newline>'' # join_nl (get_scripts m) @ ''\<newline>'')
        = Lines parsed"
      by (simp add: section_value_def Let_def)
    with sc False have "get_scripts (parse_template (serialize m)) = parsed"
      by (simp add: get_scripts_def)
    with scripts_round_trip [OF _ _ v] scripts_ok show ?thesis
      by simp
  qed
  from first second show ?thesis ..
qed

theorem C1_round_trip_witness:
  "parse_template (serialize [''introduction'' \<mapsto> Text ''hi'',
       ''scripts'' \<mapsto> Lines [''a.sh'', [], ''b.sh'']]) ''introduction'' = Some (Text ''hi'')
   \<and> nonempty_lines (get_scripts (parse_template (serialize [''introduction'' \<mapsto> Text ''hi'',
       ''scripts'' \<mapsto> Lines [''a.sh'', [], ''b.sh'']]))) = [''a.sh'', ''b.sh'']"
proof -
  let ?m = "[''introduction'' \<mapsto> Text ''hi'', ''scripts'' \<mapsto> Lines [''a.sh'', [], ''b.sh'']]"
  have keys: "dom ?m \<subseteq> set (map lower text_keys) \<union> {''scripts''}"
    unfolding lower_text_keys by simp
  have hi: "strip ''hi'' = ''hi'' \<and> no_tag ''hi''"
    by (simp add: strip_def is_space_def no_tag_def match_tag_def section_names_def tag_text_def)
  have texts: "\<forall>k\<in>set (map lower text_keys). \<forall>v. ?m k = Some v \<longrightarrow>
                  (\<exists>c. v = Text c \<and> strip c = c \<and> no_tag c)"
    unfolding lower_text_keys using hi by simp
  have sc: "(\<forall>l\<in>set [''a.sh'', [], ''b.sh'']. CHR ''\<newline>'' \<notin> set l)
      \<and> no_tag (join_nl [''a.sh'', [], ''b.sh''])
      \<and> trimmed (join_nl (nonempty_lines [''a.sh'', [], ''b.sh'']))"
    by (simp add: no_tag_def match_tag_def section_names_def tag_text_def trimmed_def
        nonempty_lines_def is_space_def)
  have scripts: "\<forall>v. ?m ''scripts'' = Some v \<longrightarrow>
                  (\<exists>ls. v = Lines ls \<and> (\<forall>l\<in>set ls. CHR ''\<newline>'' \<notin> set l)
                     \<and> no_tag (join_nl ls) \<and> trimmed (join_nl (nonempty_lines ls)))"
    using sc by simp
  note r = C1_round_trip [OF keys texts scripts]
  from r have a: "\<forall>k\<in>dom ?m. k \<noteq> ''scripts'' \<longrightarrow> parse_template (serialize ?m) k = ?m k"
    by (rule conjunct1)
  from r have b: "nonempty_lines (get_scripts (parse_template (serialize ?m)))
      = nonempty_lines (get_scripts ?m)"
    by (rule conjunct2)
  have d: "?m ''introduction'' = Some (Text ''hi'')"
    by simp
  then have dm: "''introduction'' \<in> dom ?m"
    by (rule domI)
  have ne: "''introduction'' \<noteq> ''scripts''"
    by simp
  have c: "parse_template (serialize ?m) ''introduction'' = ?m ''introduction''"
    using a [rule_format, OF dm ne] .
  have e: "nonempty_lines (get_scripts ?m) = [''a.sh'', ''b.sh'']"
    by (simp add: get_scripts_def nonempty_lines_def)
  from c d have c': "parse_template (serialize ?m) ''introduction'' = Some (Text ''hi'')"
    by (rule trans)
  from b e have b': "nonempty_lines (get_scripts (parse_template (serialize ?m))) = [''a.sh'', ''b.sh'']"
    by (rule trans)
  from c' b' show ?thesis
    by (rule conjI)
qed

end
